theory Spec2Isabelle
  imports Complex_Main "HOL-Library.AList"
begin

section \<open>Data model of \<open>src/components/AIWorker.jsx\<close>\<close>

text \<open>
  The component keeps four pieces of React state (\<open>logs\<close>, \<open>analyzing\<close>, \<open>complete\<close>,
  \<open>result\<close>) and one ref (\<open>analysisInProgress\<close>). The only function with behaviour of
  its own is the async function \<open>performRealAIAnalysis\<close>, which awaits the external
  service once. It is embedded as two state transformers, one for the part that runs
  until the \<open>await\<close> suspends and one for the part that runs when the awaited promise
  settles; the progress callback handed to the service is a third transformer.

  JavaScript is single threaded and every handler runs to completion, so a state of
  the model is a state between two handlers, with the state updates the handler queued
  applied in the order of the calls. The container's callbacks return normally. The
  props of a panel instance do not change.
\<close>

subsection \<open>Log entries, the subject, results\<close>

text \<open>The object literal built by \<open>addLog\<close> (lines 63--68).\<close>

record log_entry =
  log_id :: real
  timestamp :: string
  message :: string
  log_type :: string

text \<open>
  The \<open>stock\<close> prop. The code reads \<open>ticker\<close>, \<open>currentPrice\<close>, \<open>changePercent\<close> (the last
  two through \<open>?.\<close>, so they may be missing) and \<open>newsCount\<close>.
\<close>

record stock =
  ticker :: string
  currentPrice :: "real option"
  changePercent :: "real option"
  newsCount :: nat

text \<open>
  Modelled from the spec: the shape of the object that \<open>geminiService.analyzeStock\<close>
  resolves with (\<open>src/services/GeminiService\<close> is not part of the sources). The spec's
  AnalysisResult has \<open>signal\<close>, \<open>buyPercentage\<close>, \<open>reasoning\<close>, \<open>eodMovement\<close> (a signed
  percentage or absent), \<open>confidence\<close>, \<open>analysisTimestamp\<close>, \<open>hasTechnicalData\<close>,
  \<open>technicalBars\<close>, \<open>hasFullArticle\<close> and \<open>savedLogs\<close>. The same record is used for the
  objects the component builds itself (lines 125--128 and 139--146) and for the
  \<open>savedResult\<close> prop; a field that an object does not have is \<open>None\<close>.
\<close>

record analysis_result =
  signal :: string
  buyPercentage :: real
  reasoning :: string
  eodMovement :: "real option"
  confidence :: real
  analysisTimestamp :: "nat option"
  hasTechnicalData :: "bool option"
  technicalBars :: "nat option"
  hasFullArticle :: "bool option"
  savedLogs :: "log_entry list option"

text \<open>
  Modelled from the spec: the value the service call rejects with is an error that
  carries a description (the code reads \<open>error.message\<close>, line 135). A call that
  throws before it returns a promise is a call that rejects at once.
\<close>

datatype error = Error (error_message: string)

subsection \<open>Props\<close>

text \<open>
  The props of the component (lines 6--15). The three callbacks are optional in the
  code (\<open>onAnalysisStart?.(...)\<close>); the model records whether each was supplied.
  \<open>savedLogs\<close> and \<open>savedResult\<close> default to \<open>null\<close>, here \<open>None\<close>.
\<close>

record props =
  stock_prop :: stock
  onAnalysisComplete :: bool
  onAnalysisStart :: bool
  onClose :: bool
  isActive :: bool
  savedLogs_prop :: "log_entry list option"
  savedResult_prop :: "analysis_result option"
  autoStart :: bool

subsection \<open>What the component does to the outside\<close>

text \<open>
  Calls that leave the component are appended to a trace: the two container callbacks,
  the call of the service (tagged with the number of the run that made it), and an
  exception that leaves \<open>performRealAIAnalysis\<close> (a rejected promise nobody handles).
\<close>

datatype effect =
    OnStart string
  | Analyze nat stock
  | OnComplete string analysis_result
  | Unhandled error

subsection \<open>The JavaScript runtime\<close>

text \<open>
  Library functions whose results depend on the clock, the locale or floating point
  formatting are parameters. The clock is read once per \<open>addLog\<close>; the \<open>n\<close>-th reading
  is \<open>date_now_random n\<close> for \<open>Date.now() + Math.random()\<close> and \<open>toLocaleTimeString n\<close>
  for \<open>new Date().toLocaleTimeString()\<close>.
\<close>

record env =
  date_now_random :: "nat \<Rightarrow> real"
  toLocaleTimeString :: "nat \<Rightarrow> string"
  toFixed :: "nat \<Rightarrow> real \<Rightarrow> string"
  number_toString :: "real \<Rightarrow> string"
  toUpperCase :: "string \<Rightarrow> string"

subsection \<open>Panel state\<close>

text \<open>
  \<open>logs\<close>, \<open>analyzing\<close>, \<open>complete\<close>, \<open>result\<close> are the \<open>useState\<close> cells and
  \<open>analysisInProgress\<close> is the ref (lines 16--23). The remaining fields are the
  component's environment: whether it is mounted, the pending \<open>setTimeout\<close> of the
  auto-start effect with its delay, the service calls that have not settled (each with
  the local array \<open>allLogs\<close> of the run that awaits it), the number of the next run,
  the number of clock readings so far, and the trace. After the teardown nothing
  renders the state cells any more; the model keeps updating them.
\<close>

record panel =
  logs :: "log_entry list"
  analyzing :: bool
  complete :: bool
  result :: "analysis_result option"
  analysisInProgress :: bool
  mounted :: bool
  timer :: "nat option"
  calls :: "(nat \<times> log_entry list) list"
  next_call :: nat
  ticks :: nat
  outs :: "effect list"

section \<open>Strings of the log messages\<close>

text \<open>The emoji of the source text, as their UTF-8 bytes.\<close>

definition emoji_robot :: string where
  "emoji_robot = [CHR 0xF0, CHR 0x9F, CHR 0xA4, CHR 0x96]"

definition emoji_chart :: string where
  "emoji_chart = [CHR 0xF0, CHR 0x9F, CHR 0x93, CHR 0x8A]"

definition emoji_news :: string where
  "emoji_news = [CHR 0xF0, CHR 0x9F, CHR 0x93, CHR 0xB0]"

definition emoji_brain :: string where
  "emoji_brain = [CHR 0xF0, CHR 0x9F, CHR 0xA7, CHR 0xA0]"

definition emoji_check :: string where
  "emoji_check = [CHR 0xE2, CHR 0x9C, CHR 0x85]"

definition emoji_target :: string where
  "emoji_target = [CHR 0xF0, CHR 0x9F, CHR 0x8E, CHR 0xAF]"

definition emoji_thought :: string where
  "emoji_thought = [CHR 0xF0, CHR 0x9F, CHR 0x92, CHR 0xAD]"

definition emoji_up :: string where
  "emoji_up = [CHR 0xF0, CHR 0x9F, CHR 0x93, CHR 0x88]"

definition emoji_down :: string where
  "emoji_down = [CHR 0xF0, CHR 0x9F, CHR 0x93, CHR 0x89]"

definition emoji_flat :: string where
  "emoji_flat = [CHR 0xE2, CHR 0x9E, CHR 0xA1, CHR 0xEF, CHR 0xB8, CHR 0x8F]"

definition emoji_cross :: string where
  "emoji_cross = [CHR 0xE2, CHR 0x9D, CHR 0x8C]"

text \<open>\<open>x?.toFixed(n)\<close> inside a template literal: a missing value prints as \<open>undefined\<close>.\<close>

definition opt_toFixed :: "env \<Rightarrow> nat \<Rightarrow> real option \<Rightarrow> string" where
  "opt_toFixed E n x = (case x of None \<Rightarrow> ''undefined'' | Some v \<Rightarrow> toFixed E n v)"

text \<open>\<open>x > 0 ? '+' : ''\<close>; a missing value compares false.\<close>

definition plus_sign :: "real option \<Rightarrow> string" where
  "plus_sign x = (case x of None \<Rightarrow> [] | Some v \<Rightarrow> if v > 0 then ''+'' else [])"

text \<open>Line 119.\<close>

definition movementDirection :: "real \<Rightarrow> string" where
  "movementDirection m = (if m > 0 then emoji_up else if m < 0 then emoji_down else emoji_flat)"

section \<open>The component\<close>

subsection \<open>Mounting\<close>

text \<open>Line 27: \<open>savedResult || (savedLogs && savedLogs.length > 0)\<close>.\<close>

definition hasExistingAnalysis :: "props \<Rightarrow> bool" where
  "hasExistingAnalysis P =
     (savedResult_prop P \<noteq> None \<or>
      (case savedLogs_prop P of None \<Rightarrow> False | Some l \<Rightarrow> length l > 0))"

text \<open>Lines 16--23: the initial values of the state cells and of the ref.\<close>

definition useState_init :: "props \<Rightarrow> panel" where
  "useState_init P =
     \<lparr> logs = (case savedLogs_prop P of None \<Rightarrow> [] | Some l \<Rightarrow> l),
       analyzing = False,
       complete = (savedResult_prop P \<noteq> None),
       result = savedResult_prop P,
       analysisInProgress = False,
       mounted = True,
       timer = None,
       calls = [],
       next_call = 0,
       ticks = 0,
       outs = [] \<rparr>"

text \<open>Lines 26--39: the auto-start effect schedules the run 500 ms later.\<close>

definition autoStart_effect :: "props \<Rightarrow> panel \<Rightarrow> panel" where
  "autoStart_effect P s =
     (if autoStart P \<and> \<not> analyzing s \<and> \<not> complete s \<and> \<not> hasExistingAnalysis P
         \<and> \<not> analysisInProgress s
      then s\<lparr>timer := Some 500\<rparr>
      else s)"

text \<open>Lines 42--48: the effect that loads the saved logs.\<close>

definition loadSaved_effect :: "props \<Rightarrow> panel \<Rightarrow> panel" where
  "loadSaved_effect P s =
     (case savedLogs_prop P of
        None \<Rightarrow> s
      | Some l \<Rightarrow>
          if length l > 0
          then s\<lparr>logs := l, complete := (savedResult_prop P \<noteq> None), result := savedResult_prop P\<rparr>
          else s)"

text \<open>
  The panel after its first render and its mount effects. The props of one panel
  instance are fixed, so the effects run once.
\<close>

definition AIWorker :: "props \<Rightarrow> panel" where
  "AIWorker P = loadSaved_effect P (autoStart_effect P (useState_init P))"

subsection \<open>\<open>addLog\<close> (lines 61--71)\<close>

definition addLog :: "env \<Rightarrow> string \<Rightarrow> string \<Rightarrow> panel \<Rightarrow> log_entry \<times> panel" where
  "addLog E msg ty s =
     (let newLog = \<lparr> log_id = date_now_random E (ticks s),
                      timestamp = toLocaleTimeString E (ticks s),
                      message = msg,
                      log_type = ty \<rparr>
      in (newLog, s\<lparr>logs := logs s @ [newLog], ticks := Suc (ticks s)\<rparr>))"

text \<open>An optional callback: \<open>f?.(...)\<close> calls \<open>f\<close> when it was supplied.\<close>

definition call_opt :: "bool \<Rightarrow> effect \<Rightarrow> panel \<Rightarrow> panel" where
  "call_opt given out s = (if given then s\<lparr>outs := outs s @ [out]\<rparr> else s)"

subsection \<open>\<open>performRealAIAnalysis\<close> up to the \<open>await\<close> (lines 74--106)\<close>

text \<open>
  \<open>analyzing_seen\<close> is the value of the state cell \<open>analyzing\<close> in the closure that is
  called; the ref is read live. When the guard lets the call through, the function
  runs to the \<open>await\<close> and leaves the service call pending with its \<open>allLogs\<close>.
\<close>

definition performRealAIAnalysis :: "env \<Rightarrow> props \<Rightarrow> bool \<Rightarrow> panel \<Rightarrow> panel" where
  "performRealAIAnalysis E P analyzing_seen s0 =
     (if analyzing_seen \<or> analysisInProgress s0 then s0
      else
        let st = stock_prop P;
            s = s0\<lparr>analysisInProgress := True\<rparr>;
            s = s\<lparr>analyzing := True\<rparr>;
            s = s\<lparr>complete := False\<rparr>;
            s = s\<lparr>logs := []\<rparr>;
            s = call_opt (onAnalysisStart P) (OnStart (ticker st)) s;
            allLogs = [];
            (log1, s) = addLog E (emoji_robot @ '' Starting AI analysis for '' @ ticker st @ ''...'')
                          ''system'' s;
            allLogs = allLogs @ [log1];
            (log2, s) = addLog E (emoji_chart @ '' Price: $'' @ opt_toFixed E 2 (currentPrice st)
                            @ '' ('' @ plus_sign (changePercent st)
                            @ opt_toFixed E 2 (changePercent st) @ ''%)'')
                          ''info'' s;
            allLogs = allLogs @ [log2];
            (log3, s) = addLog E (emoji_news @ '' Analyzing '' @ number_toString E (real (newsCount st))
                            @ '' news articles...'')
                          ''info'' s;
            allLogs = allLogs @ [log3];
            (log4, s) = addLog E (emoji_brain @ '' Sending to Gemini AI...'') ''system'' s;
            allLogs = allLogs @ [log4];
            k = next_call s
        in s\<lparr>outs := outs s @ [Analyze k st],
              calls := calls s @ [(k, allLogs)],
              next_call := Suc k\<rparr>)"

subsection \<open>The progress callback (lines 103--106)\<close>

definition onProgress :: "env \<Rightarrow> string \<Rightarrow> log_entry list \<times> panel \<Rightarrow> log_entry list \<times> panel" where
  "onProgress E progressMessage = (\<lambda>(allLogs, s).
     let (progressLog, s) = addLog E progressMessage ''progress'' s
     in (allLogs @ [progressLog], s))"

subsection \<open>\<open>performRealAIAnalysis\<close> after the \<open>await\<close> (lines 103--153)\<close>

text \<open>
  A block either completes (\<open>Inr\<close>) or throws (\<open>Inl\<close>) in some state.
  \<open>try_catch_finally\<close> is the control flow of the statement of lines 89--153: the
  handler runs when the body throws, the \<open>finally\<close> block runs on every path, and an
  exception thrown by the handler leaves the statement.
\<close>

definition try_catch_finally ::
  "('s \<Rightarrow> ('e \<times> 's) + 's) \<Rightarrow> ('e \<Rightarrow> 's \<Rightarrow> ('e \<times> 's) + 's) \<Rightarrow> ('s \<Rightarrow> 's) \<Rightarrow> 's \<Rightarrow> ('e \<times> 's) + 's" where
  "try_catch_finally body handler fin s =
     (case body s of
        Inr s' \<Rightarrow> Inr (fin s')
      | Inl (e, s') \<Rightarrow>
          (case handler e s' of
             Inr s'' \<Rightarrow> Inr (fin s'')
           | Inl (e', s'') \<Rightarrow> Inl (e', fin s'')))"

text \<open>
  The rest of the \<open>try\<close> block. The awaited call has settled: a rejection is thrown by
  the \<open>await\<close>, a value is bound to \<open>aiResult\<close> and lines 108--132 run.
\<close>

definition try_block ::
  "env \<Rightarrow> props \<Rightarrow> error + analysis_result \<Rightarrow> log_entry list \<times> panel
     \<Rightarrow> (error \<times> (log_entry list \<times> panel)) + (log_entry list \<times> panel)" where
  "try_block E P settled = (\<lambda>(allLogs, s).
     case settled of
       Inl err \<Rightarrow> Inl (err, (allLogs, s))
     | Inr aiResult \<Rightarrow>
         let (log5, s) = addLog E (emoji_check @ '' AI analysis complete'') ''success'' s;
             allLogs = allLogs @ [log5];
             (log6, s) = addLog E (emoji_target @ '' Signal: '' @ toUpperCase E (signal aiResult)
                             @ '' ('' @ number_toString E (buyPercentage aiResult) @ ''%)'')
                           ''result'' s;
             allLogs = allLogs @ [log6];
             (log7, s) = addLog E (emoji_thought @ '' '' @ reasoning aiResult) ''reasoning'' s;
             allLogs = allLogs @ [log7];
             (allLogs, s) =
               (case eodMovement aiResult of
                  None \<Rightarrow> (allLogs, s)
                | Some m \<Rightarrow>
                    let (log8, s) = addLog E (movementDirection m @ '' EOD Movement: ''
                                        @ plus_sign (Some m) @ toFixed E 1 m @ ''%'')
                                      ''forecast'' s
                    in (allLogs @ [log8], s));
             finalResult = aiResult\<lparr>savedLogs := Some allLogs\<rparr>;
             s = s\<lparr>complete := True\<rparr>;
             s = s\<lparr>result := Some finalResult\<rparr>;
             s = call_opt (onAnalysisComplete P) (OnComplete (ticker (stock_prop P)) finalResult) s
         in Inr (allLogs, s))"

text \<open>Lines 139--146.\<close>

definition fallbackResult :: "log_entry list \<Rightarrow> analysis_result" where
  "fallbackResult allLogs =
     \<lparr> signal = ''hold'',
       buyPercentage = 30,
       reasoning = ''AI service unavailable'',
       eodMovement = Some 0,
       confidence = 0.2,
       analysisTimestamp = None,
       hasTechnicalData = None,
       technicalBars = None,
       hasFullArticle = None,
       savedLogs = Some allLogs \<rparr>"

text \<open>The \<open>catch\<close> block (lines 134--149).\<close>

definition catch_block ::
  "env \<Rightarrow> props \<Rightarrow> error \<Rightarrow> log_entry list \<times> panel
     \<Rightarrow> (error \<times> (log_entry list \<times> panel)) + (log_entry list \<times> panel)" where
  "catch_block E P err = (\<lambda>(allLogs, s).
     let (errorLog, s) = addLog E (emoji_cross @ '' Analysis failed: '' @ error_message err)
                           ''error'' s;
         allLogs = allLogs @ [errorLog];
         s = s\<lparr>result := Some (fallbackResult allLogs)\<rparr>;
         s = call_opt (onAnalysisComplete P)
               (OnComplete (ticker (stock_prop P)) (fallbackResult allLogs)) s
     in Inr (allLogs, s))"

text \<open>The \<open>finally\<close> block (lines 150--153).\<close>

definition finally_block :: "log_entry list \<times> panel \<Rightarrow> log_entry list \<times> panel" where
  "finally_block = (\<lambda>(allLogs, s).
     let s = s\<lparr>analyzing := False\<rparr>;
         s = s\<lparr>analysisInProgress := False\<rparr>
     in (allLogs, s))"

definition performRealAIAnalysis_resume ::
  "env \<Rightarrow> props \<Rightarrow> error + analysis_result \<Rightarrow> log_entry list \<times> panel
     \<Rightarrow> (error \<times> (log_entry list \<times> panel)) + (log_entry list \<times> panel)" where
  "performRealAIAnalysis_resume E P settled =
     try_catch_finally (try_block E P settled) (catch_block E P) finally_block"

subsection \<open>Events\<close>

text \<open>
  What can happen to a panel: a click on one of the two buttons whose handler is
  \<open>performRealAIAnalysis\<close>, the auto-start timer firing, the service calling the
  progress callback of run \<open>k\<close>, the call of run \<open>k\<close> resolving or rejecting, and the
  teardown of the component (lines 157--161). The service calls the progress callback
  only before it settles. An event that cannot happen in a state has no successor.

  A click calls the closure of the latest render, which has seen the current value of
  \<open>analyzing\<close>; the timer calls the closure of the render whose effect scheduled it,
  where \<open>analyzing\<close> was false (line 29). Neither timer nor pending call is cancelled
  by the teardown.
\<close>

datatype event =
    Click
  | TimerFire
  | Progress nat string
  | Resolve nat analysis_result
  | Reject nat error
  | Unmount

definition settle :: "env \<Rightarrow> props \<Rightarrow> nat \<Rightarrow> error + analysis_result \<Rightarrow> panel \<Rightarrow> panel option" where
  "settle E P k settled s =
     (case map_of (calls s) k of
        None \<Rightarrow> None
      | Some allLogs \<Rightarrow>
          let s = s\<lparr>calls := AList.delete k (calls s)\<rparr>
          in (case performRealAIAnalysis_resume E P settled (allLogs, s) of
                Inr (allLogs', s') \<Rightarrow> Some s'
              | Inl (e, (allLogs', s')) \<Rightarrow> Some (s'\<lparr>outs := outs s' @ [Unhandled e]\<rparr>)))"

fun step :: "env \<Rightarrow> props \<Rightarrow> event \<Rightarrow> panel \<Rightarrow> panel option" where
  "step E P Click s =
     (if mounted s then Some (performRealAIAnalysis E P (analyzing s) s) else None)"
| "step E P TimerFire s =
     (case timer s of
        None \<Rightarrow> None
      | Some delay \<Rightarrow> Some (performRealAIAnalysis E P False (s\<lparr>timer := None\<rparr>)))"
| "step E P (Progress k progressMessage) s =
     (case map_of (calls s) k of
        None \<Rightarrow> None
      | Some allLogs \<Rightarrow>
          let (allLogs', s') = onProgress E progressMessage (allLogs, s)
          in Some (s'\<lparr>calls := AList.update k allLogs' (calls s')\<rparr>))"
| "step E P (Resolve k aiResult) s = settle E P k (Inr aiResult) s"
| "step E P (Reject k err) s = settle E P k (Inl err) s"
| "step E P Unmount s =
     (if mounted s then Some (s\<lparr>analysisInProgress := False, mounted := False\<rparr>) else None)"

fun exec :: "env \<Rightarrow> props \<Rightarrow> event list \<Rightarrow> panel \<Rightarrow> panel option" where
  "exec E P [] s = Some s"
| "exec E P (ev # evs) s =
     (case step E P ev s of None \<Rightarrow> None | Some s' \<Rightarrow> exec E P evs s')"

section \<open>Notions used in the statements\<close>

text \<open>
  The entry \<open>addLog\<close> builds at the \<open>t\<close>-th reading of the clock.
\<close>

definition mk_log :: "env \<Rightarrow> nat \<Rightarrow> string \<Rightarrow> string \<Rightarrow> log_entry" where
  "mk_log E t msg ty = \<lparr> log_id = date_now_random E t, timestamp = toLocaleTimeString E t,
       message = msg, log_type = ty \<rparr>"

text \<open>
  The four entries of lines 90--100, when the first of them is built at clock reading \<open>t\<close>.
\<close>

definition startup_logs :: "env \<Rightarrow> props \<Rightarrow> nat \<Rightarrow> log_entry list" where
  "startup_logs E P t =
     [ mk_log E t (emoji_robot @ '' Starting AI analysis for '' @ ticker (stock_prop P) @ ''...'') ''system'',
       mk_log E (t + 1) (emoji_chart @ '' Price: $'' @ opt_toFixed E 2 (currentPrice (stock_prop P))
          @ '' ('' @ plus_sign (changePercent (stock_prop P))
          @ opt_toFixed E 2 (changePercent (stock_prop P)) @ ''%)'') ''info'',
       mk_log E (t + 2) (emoji_news @ '' Analyzing '' @ number_toString E (real (newsCount (stock_prop P)))
          @ '' news articles...'') ''info'',
       mk_log E (t + 3) (emoji_brain @ '' Sending to Gemini AI...'') ''system'' ]"

text \<open>
  The entries of lines 108--122 for the value \<open>r\<close> of the service call.
\<close>

definition success_logs :: "env \<Rightarrow> analysis_result \<Rightarrow> nat \<Rightarrow> log_entry list" where
  "success_logs E r t =
     [ mk_log E t (emoji_check @ '' AI analysis complete'') ''success'',
       mk_log E (Suc t) (emoji_target @ '' Signal: '' @ toUpperCase E (signal r)
          @ '' ('' @ number_toString E (buyPercentage r) @ ''%)'') ''result'',
       mk_log E (Suc (Suc t)) (emoji_thought @ '' '' @ reasoning r) ''reasoning'' ]
     @ (case eodMovement r of
          None \<Rightarrow> []
        | Some m \<Rightarrow> [mk_log E (Suc (Suc (Suc t))) (movementDirection m @ '' EOD Movement: ''
                        @ plus_sign (Some m) @ toFixed E 1 m @ ''%'') ''forecast''])"

text \<open>
  The entry of line 135.
\<close>

definition error_log :: "env \<Rightarrow> error \<Rightarrow> nat \<Rightarrow> log_entry" where
  "error_log E err t = mk_log E t (emoji_cross @ '' Analysis failed: '' @ error_message err) ''error''"

text \<open>
  What \<open>onAnalysisComplete?.(stock.ticker, r)\<close> adds to the trace.
\<close>

definition complete_out :: "props \<Rightarrow> analysis_result \<Rightarrow> effect list" where
  "complete_out P r = (if onAnalysisComplete P then [OnComplete (ticker (stock_prop P)) r] else [])"

text \<open>
  Run numbers of pending calls are distinct and were handed out before.
\<close>

definition calls_wf :: "panel \<Rightarrow> bool" where
  "calls_wf s = (distinct (map fst (calls s)) \<and> (\<forall>k \<in> fst ` set (calls s). k < next_call s))"

text \<open>
  The relation between \<open>analyzing\<close>, \<open>complete\<close> and \<open>result\<close> that every handler keeps.
\<close>

definition flags_inv :: "props \<Rightarrow> panel \<Rightarrow> bool" where
  "flags_inv P s =
     (\<not> (analyzing s \<and> complete s) \<and>
      (complete s \<longrightarrow> result s \<noteq> None) \<and>
      (savedResult_prop P \<noteq> None \<longrightarrow> result s \<noteq> None))"

text \<open>
  The relation between the ref, the pending calls and the log that every handler keeps;
  the part under \<open>mounted\<close> is lost at the teardown, which clears the ref while the
  call is still pending.
\<close>

definition guard_inv :: "panel \<Rightarrow> bool" where
  "guard_inv s =
     ((analysisInProgress s \<longrightarrow> calls s \<noteq> []) \<and>
      (mounted s \<longrightarrow> analyzing s = analysisInProgress s \<and> (calls s \<noteq> [] \<longrightarrow> analysisInProgress s)
          \<and> length (calls s) \<le> 1 \<and> (\<forall>al \<in> snd ` set (calls s). logs s = al)))"

text \<open>
  The invariant of the panel.
\<close>

definition panel_inv :: "props \<Rightarrow> panel \<Rightarrow> bool" where
  "panel_inv P s = (calls_wf s \<and> flags_inv P s \<and> guard_inv s)"

text \<open>
  The messages the service passes to the progress callback of run \<open>k\<close> in a sequence of
  events, in order.
\<close>

fun progress_of :: "nat \<Rightarrow> event list \<Rightarrow> string list" where
  "progress_of k [] = []"
| "progress_of k (Progress k' m # evs) = (if k' = k then m # progress_of k evs else progress_of k evs)"
| "progress_of k (_ # evs) = progress_of k evs"

text \<open>
  Whether the call of run \<open>k\<close> resolves or rejects somewhere in a sequence of events.
\<close>

fun settles :: "nat \<Rightarrow> event list \<Rightarrow> bool" where
  "settles k [] = False"
| "settles k (Resolve k' r # evs) = (k' = k \<or> settles k evs)"
| "settles k (Reject k' e # evs) = (k' = k \<or> settles k evs)"
| "settles k (_ # evs) = settles k evs"

text \<open>
  Sample inputs: a runtime, the props of a panel with no saved session, and the value
  of the spec's example (\<open>signal\<close> buy, 72 percent, movement 1.8).
\<close>

definition E0 :: env where
  "E0 = \<lparr> date_now_random = real, toLocaleTimeString = (\<lambda>n. ''12:00:00''),
          toFixed = (\<lambda>n x. ''1.8''), number_toString = (\<lambda>x. ''72''), toUpperCase = (\<lambda>s. ''BUY'') \<rparr>"

definition P0 :: props where
  "P0 = \<lparr> stock_prop = \<lparr> ticker = ''ACME'', currentPrice = Some 10, changePercent = Some 1, newsCount = 3 \<rparr>,
          onAnalysisComplete = True, onAnalysisStart = True, onClose = True, isActive = True,
          savedLogs_prop = None, savedResult_prop = None, autoStart = False \<rparr>"

definition r0 :: analysis_result where
  "r0 = \<lparr> signal = ''buy'', buyPercentage = 72, reasoning = ''strong momentum'',
          eodMovement = Some 1.8, confidence = 0.81, analysisTimestamp = Some 0,
          hasTechnicalData = Some True, technicalBars = Some 5, hasFullArticle = Some False,
          savedLogs = None \<rparr>"

text \<open>
  The same panel with \<open>autoStart\<close>, and one with \<open>autoStart\<close> and a saved result.
\<close>

definition P1 :: props where
  "P1 = P0\<lparr>autoStart := True\<rparr>"

definition P2 :: props where
  "P2 = P0\<lparr>autoStart := True, savedResult_prop := Some r0\<rparr>"

text \<open>
  The kinds of entries of the trace.
\<close>

fun is_OnStart :: "effect \<Rightarrow> bool" where
  "is_OnStart (OnStart t) = True"
| "is_OnStart _ = False"

fun is_Analyze :: "effect \<Rightarrow> bool" where
  "is_Analyze (Analyze k st) = True"
| "is_Analyze _ = False"

fun is_OnComplete :: "effect \<Rightarrow> bool" where
  "is_OnComplete (OnComplete t r) = True"
| "is_OnComplete _ = False"

fun is_Unhandled :: "effect \<Rightarrow> bool" where
  "is_Unhandled (Unhandled e) = True"
| "is_Unhandled _ = False"

text \<open>
  When \<open>result\<close> is present: a saved result was supplied, or fewer calls are pending
  than runs were started, that is, some call has settled (line 131 or line 148).
\<close>

definition result_inv :: "props \<Rightarrow> panel \<Rightarrow> bool" where
  "result_inv P s =
     (length (calls s) \<le> next_call s \<and>
      (result s \<noteq> None) = (savedResult_prop P \<noteq> None \<or> length (calls s) < next_call s))"

text \<open>
  Every run that has started has called \<open>onAnalysisStart\<close> and the service once, every
  run that has settled has called \<open>onAnalysisComplete\<close> once, and no exception has left
  \<open>performRealAIAnalysis\<close>. \<open>next_call\<close> is the number of runs started so far and
  \<open>calls\<close> holds the runs that have not settled.
\<close>

definition trace_inv :: "props \<Rightarrow> panel \<Rightarrow> bool" where
  "trace_inv P s =
     (length (filter is_Analyze (outs s)) = next_call s \<and>
      (onAnalysisStart P \<longrightarrow> length (filter is_OnStart (outs s)) = next_call s) \<and>
      (onAnalysisComplete P \<longrightarrow>
         length (filter is_OnComplete (outs s)) + length (calls s) = next_call s) \<and>
      filter is_Unhandled (outs s) = [])"

section \<open>Auxiliary lemmas\<close>

lemma addLog_eq:
  "addLog E msg ty s = (mk_log E (ticks s) msg ty, s\<lparr>logs := logs s @ [mk_log E (ticks s) msg ty], ticks := Suc (ticks s)\<rparr>)"
  by (simp add: addLog_def mk_log_def Let_def)

lemma start_eq:
  "\<not> seen \<Longrightarrow> \<not> analysisInProgress s \<Longrightarrow>
   performRealAIAnalysis E P seen s =
     s\<lparr> analysisInProgress := True, analyzing := True, complete := False,
        logs := startup_logs E P (ticks s),
        ticks := ticks s + 4,
        outs := outs s @ (if onAnalysisStart P then [OnStart (ticker (stock_prop P))] else [])
                  @ [Analyze (next_call s) (stock_prop P)],
        calls := calls s @ [(next_call s, startup_logs E P (ticks s))],
        next_call := Suc (next_call s) \<rparr>"
  by (simp add: performRealAIAnalysis_def Let_def addLog_eq call_opt_def startup_logs_def eval_nat_numeral)

lemma start_noop:
  "seen \<or> analysisInProgress s \<Longrightarrow> performRealAIAnalysis E P seen s = s"
  by (simp add: performRealAIAnalysis_def)

lemma resume_resolve_eq:
  "performRealAIAnalysis_resume E P (Inr r) (al, s) =
     Inr (al @ success_logs E r (ticks s),
          s\<lparr> logs := logs s @ success_logs E r (ticks s),
             ticks := ticks s + length (success_logs E r (ticks s)),
             complete := True,
             result := Some (r\<lparr>savedLogs := Some (al @ success_logs E r (ticks s))\<rparr>),
             outs := outs s @ complete_out P (r\<lparr>savedLogs := Some (al @ success_logs E r (ticks s))\<rparr>),
             analyzing := False,
             analysisInProgress := False \<rparr>)"
  by (cases "eodMovement r")
     (simp_all add: performRealAIAnalysis_resume_def try_catch_finally_def try_block_def
        finally_block_def Let_def addLog_eq call_opt_def success_logs_def complete_out_def)

lemma resume_reject_eq:
  "performRealAIAnalysis_resume E P (Inl err) (al, s) =
     Inr (al @ [error_log E err (ticks s)],
          s\<lparr> logs := logs s @ [error_log E err (ticks s)],
             ticks := Suc (ticks s),
             result := Some (fallbackResult (al @ [error_log E err (ticks s)])),
             outs := outs s @ complete_out P (fallbackResult (al @ [error_log E err (ticks s)])),
             analyzing := False,
             analysisInProgress := False \<rparr>)"
  by (simp add: performRealAIAnalysis_resume_def try_catch_finally_def try_block_def catch_block_def
        finally_block_def Let_def addLog_eq call_opt_def error_log_def complete_out_def)

lemma settle_resolve_eq:
  "map_of (calls s) k = Some al \<Longrightarrow>
   settle E P k (Inr r) s =
     Some (s\<lparr> calls := AList.delete k (calls s),
             logs := logs s @ success_logs E r (ticks s),
             ticks := ticks s + length (success_logs E r (ticks s)),
             complete := True,
             result := Some (r\<lparr>savedLogs := Some (al @ success_logs E r (ticks s))\<rparr>),
             outs := outs s @ complete_out P (r\<lparr>savedLogs := Some (al @ success_logs E r (ticks s))\<rparr>),
             analyzing := False,
             analysisInProgress := False \<rparr>)"
  by (simp add: settle_def resume_resolve_eq)

lemma settle_reject_eq:
  "map_of (calls s) k = Some al \<Longrightarrow>
   settle E P k (Inl err) s =
     Some (s\<lparr> calls := AList.delete k (calls s),
             logs := logs s @ [error_log E err (ticks s)],
             ticks := Suc (ticks s),
             result := Some (fallbackResult (al @ [error_log E err (ticks s)])),
             outs := outs s @ complete_out P (fallbackResult (al @ [error_log E err (ticks s)])),
             analyzing := False,
             analysisInProgress := False \<rparr>)"
  by (simp add: settle_def resume_reject_eq)

lemma settle_None: "map_of (calls s) k = None \<Longrightarrow> settle E P k x s = None"
  by (simp add: settle_def)

lemma progress_eq:
  "map_of (calls s) k = Some al \<Longrightarrow>
   step E P (Progress k m) s =
     Some (s\<lparr> logs := logs s @ [mk_log E (ticks s) m ''progress''],
             ticks := Suc (ticks s),
             calls := AList.update k (al @ [mk_log E (ticks s) m ''progress'']) (calls s) \<rparr>)"
  by (simp add: onProgress_def addLog_eq)

lemma exec_append:
  "exec E P (xs @ ys) s = (case exec E P xs s of None \<Rightarrow> None | Some s' \<Rightarrow> exec E P ys s')"
  by (induction xs arbitrary: s) (auto split: option.splits)

lemma inv_init: "panel_inv P (AIWorker P)"
  by (auto simp: panel_inv_def calls_wf_def flags_inv_def guard_inv_def AIWorker_def
      loadSaved_effect_def autoStart_effect_def useState_init_def split: option.splits)

lemma inv_start:
  assumes "panel_inv P s"
  shows "panel_inv P (performRealAIAnalysis E P seen s)"
proof (cases "seen \<or> analysisInProgress s")
  case True
  then show ?thesis using assms by (simp add: start_noop)
next
  case False
  then have eq: "performRealAIAnalysis E P seen s =
     s\<lparr> analysisInProgress := True, analyzing := True, complete := False,
        logs := startup_logs E P (ticks s),
        ticks := ticks s + 4,
        outs := outs s @ (if onAnalysisStart P then [OnStart (ticker (stock_prop P))] else [])
                  @ [Analyze (next_call s) (stock_prop P)],
        calls := calls s @ [(next_call s, startup_logs E P (ticks s))],
        next_call := Suc (next_call s) \<rparr>" by (simp add: start_eq)
  have 1: "calls_wf (performRealAIAnalysis E P seen s)"
    unfolding eq using assms by (auto simp: panel_inv_def calls_wf_def less_Suc_eq)
  have 2: "flags_inv P (performRealAIAnalysis E P seen s)"
    unfolding eq using assms by (simp add: panel_inv_def flags_inv_def)
  have 3: "guard_inv (performRealAIAnalysis E P seen s)"
    unfolding eq using assms False by (auto simp: panel_inv_def guard_inv_def)
  show ?thesis using 1 2 3 by (simp add: panel_inv_def)
qed

lemma delete_shorter:
  "map_of xs k = Some v \<Longrightarrow> length (AList.delete k xs) < length xs"
  by (induction xs) (auto simp: AList.delete_eq less_Suc_eq_le split: if_splits)

lemma wf_delete: "calls_wf s \<Longrightarrow> distinct (map fst (AList.delete k (calls s))) \<and>
    (\<forall>k' \<in> fst ` set (AList.delete k (calls s)). k' < next_call s)"
proof -
  assume wf: "calls_wf s"
  have "set (AList.delete k (calls s)) \<subseteq> set (calls s)" by (auto simp: AList.delete_eq)
  then show ?thesis using wf by (auto simp: calls_wf_def AList.distinct_delete)
qed

lemma inv_settle:
  assumes "panel_inv P s" "settle E P k x s = Some s'"
  shows "panel_inv P s'"
proof -
  from assms(2) obtain al where al: "map_of (calls s) k = Some al"
    by (cases "map_of (calls s) k") (auto simp: settle_None)
  have wf: "distinct (map fst (AList.delete k (calls s)))"
       "\<forall>k' \<in> fst ` set (AList.delete k (calls s)). k' < next_call s"
    using assms(1) wf_delete[of s k] by (simp_all add: panel_inv_def)
  have len: "length (AList.delete k (calls s)) < length (calls s)"
    using al by (rule delete_shorter)
  have m: "AList.delete k (calls s) = []" if "mounted s"
  proof -
    have "length (calls s) \<le> 1" using assms(1) that by (simp add: panel_inv_def guard_inv_def)
    with len have "length (AList.delete k (calls s)) = 0" by linarith
    then show ?thesis by simp
  qed
  have f: "flags_inv P s" using assms(1) by (simp add: panel_inv_def)
  show ?thesis
  proof (cases x)
    case (Inl err)
    with assms(2) al have eq: "s' = s\<lparr> calls := AList.delete k (calls s),
             logs := logs s @ [error_log E err (ticks s)],
             ticks := Suc (ticks s),
             result := Some (fallbackResult (al @ [error_log E err (ticks s)])),
             outs := outs s @ complete_out P (fallbackResult (al @ [error_log E err (ticks s)])),
             analyzing := False,
             analysisInProgress := False \<rparr>" by (simp add: settle_reject_eq)
    have "calls_wf s'" unfolding eq using wf by (simp add: calls_wf_def)
    moreover have "flags_inv P s'" unfolding eq using f by (simp add: flags_inv_def)
    moreover have "guard_inv s'" unfolding eq using m by (simp add: guard_inv_def)
    ultimately show ?thesis by (simp add: panel_inv_def)
  next
    case (Inr r)
    with assms(2) al have eq: "s' = s\<lparr> calls := AList.delete k (calls s),
             logs := logs s @ success_logs E r (ticks s),
             ticks := ticks s + length (success_logs E r (ticks s)),
             complete := True,
             result := Some (r\<lparr>savedLogs := Some (al @ success_logs E r (ticks s))\<rparr>),
             outs := outs s @ complete_out P (r\<lparr>savedLogs := Some (al @ success_logs E r (ticks s))\<rparr>),
             analyzing := False,
             analysisInProgress := False \<rparr>" by (simp add: settle_resolve_eq)
    have "calls_wf s'" unfolding eq using wf by (simp add: calls_wf_def)
    moreover have "flags_inv P s'" unfolding eq using f by (simp add: flags_inv_def)
    moreover have "guard_inv s'" unfolding eq using m by (simp add: guard_inv_def)
    ultimately show ?thesis by (simp add: panel_inv_def)
  qed
qed

lemma update_nonempty: "AList.update k v xs \<noteq> []"
  by (cases xs) auto

lemma length_update_present: "map_of xs k = Some v \<Longrightarrow> length (AList.update k w xs) = length xs"
  by (induction xs) (auto split: if_splits)

lemma single_call:
  assumes "length xs \<le> 1" "map_of xs k = Some v"
  shows "xs = [(k, v)]"
proof (cases xs)
  case Nil
  then show ?thesis using assms by simp
next
  case (Cons a ys)
  then have "ys = []" using assms(1) by simp
  then show ?thesis using Cons assms(2) by (cases a) (auto split: if_splits)
qed

lemma inv_timer: "panel_inv P s \<Longrightarrow> panel_inv P (s\<lparr>timer := t\<rparr>)"
  by (simp add: panel_inv_def calls_wf_def flags_inv_def guard_inv_def)

lemma inv_step:
  assumes "panel_inv P s" "step E P ev s = Some s'"
  shows "panel_inv P s'"
proof (cases ev)
  case Click
  then show ?thesis using assms by (auto split: if_splits intro!: inv_start)
next
  case TimerFire
  then show ?thesis using assms by (auto split: option.splits intro!: inv_start inv_timer)
next
  case (Progress k m)
  with assms(2) obtain al where al: "map_of (calls s) k = Some al"
    by (cases "map_of (calls s) k") auto
  with assms(2) Progress have eq: "s' = s\<lparr> logs := logs s @ [mk_log E (ticks s) m ''progress''],
             ticks := Suc (ticks s),
             calls := AList.update k (al @ [mk_log E (ticks s) m ''progress'']) (calls s) \<rparr>"
    by (simp add: progress_eq del: step.simps)
  have kin: "k \<in> fst ` set (calls s)" using al by (force dest: map_of_SomeD)
  have "calls_wf s'" unfolding eq using assms(1) kin
    by (auto simp: panel_inv_def calls_wf_def AList.distinct_update AList.dom_update)
  moreover have "flags_inv P s'" unfolding eq using assms(1) by (simp add: panel_inv_def flags_inv_def)
  moreover have "guard_inv s'"
  proof (cases "mounted s")
    case True
    then have "calls s = [(k, al)]" using assms(1) al
      by (intro single_call) (simp_all add: panel_inv_def guard_inv_def)
    then show ?thesis unfolding eq using assms(1) True
      by (simp add: panel_inv_def guard_inv_def)
  next
    case False
    then show ?thesis unfolding eq using assms(1)
      by (simp add: panel_inv_def guard_inv_def update_nonempty)
  qed
  ultimately show ?thesis by (simp add: panel_inv_def)
next
  case (Resolve k r)
  then show ?thesis using assms inv_settle by simp
next
  case (Reject k e)
  then show ?thesis using assms inv_settle by simp
next
  case Unmount
  with assms(2) have eq: "s' = s\<lparr>analysisInProgress := False, mounted := False\<rparr>"
    by (simp split: if_splits)
  have "calls_wf s'" unfolding eq using assms(1) by (simp add: panel_inv_def calls_wf_def)
  moreover have "flags_inv P s'" unfolding eq using assms(1) by (simp add: panel_inv_def flags_inv_def)
  moreover have "guard_inv s'" unfolding eq by (simp add: guard_inv_def)
  ultimately show ?thesis by (simp add: panel_inv_def)
qed

lemma inv_exec:
  "panel_inv P s \<Longrightarrow> exec E P evs s = Some s' \<Longrightarrow> panel_inv P s'"
  by (induction evs arbitrary: s) (auto split: option.splits dest: inv_step)

lemma inv_reachable: "exec E P evs (AIWorker P) = Some s \<Longrightarrow> panel_inv P s"
  using inv_exec inv_init by blast

lemma map_of_append_old: "map_of xs k = Some v \<Longrightarrow> map_of (xs @ ys) k = Some v"
  by (simp add: map_add_Some_iff)

lemma pres_start:
  assumes "calls_wf s" "map_of (calls s) k = Some al"
  shows "map_of (calls (performRealAIAnalysis E P seen s)) k = Some al"
proof (cases "seen \<or> analysisInProgress s")
  case True
  then show ?thesis using assms by (simp add: start_noop)
next
  case False
  then show ?thesis using assms by (simp add: start_eq map_of_append_old)
qed

lemma pres_step:
  assumes "map_of (calls s) k = Some al" "step E P ev s = Some s'" "\<not> settles k [ev]"
  shows "\<exists>pl. map_of (calls s') k = Some (al @ pl) \<and> map message pl = progress_of k [ev]
            \<and> map log_type pl = replicate (length pl) ''progress''"
proof (cases ev)
  case Click
  then show ?thesis using assms
    by (cases "analyzing s \<or> analysisInProgress s")
       (auto simp: start_noop start_eq map_of_append_old split: if_splits)
next
  case TimerFire
  then show ?thesis using assms
    by (cases "analysisInProgress s")
       (auto simp: start_noop start_eq map_of_append_old split: option.splits)
next
  case (Progress k' m)
  with assms(2) obtain al' where al': "map_of (calls s) k' = Some al'"
    by (cases "map_of (calls s) k'") auto
  with assms(2) Progress have eq: "s' = s\<lparr> logs := logs s @ [mk_log E (ticks s) m ''progress''],
             ticks := Suc (ticks s),
             calls := AList.update k' (al' @ [mk_log E (ticks s) m ''progress'']) (calls s) \<rparr>"
    by (simp add: progress_eq del: step.simps)
  show ?thesis
  proof (cases "k' = k")
    case True
    then show ?thesis unfolding eq using Progress al' assms(1)
      by (simp add: AList.update_conv' mk_log_def)
  next
    case False
    then show ?thesis unfolding eq using Progress assms(1)
      by (simp add: AList.update_conv')
  qed
next
  case (Resolve k' r)
  with assms(2) obtain al' where al': "map_of (calls s) k' = Some al'"
    by (cases "map_of (calls s) k'") (auto simp: settle_None)
  from Resolve assms(3) have ne: "k' \<noteq> k" by simp
  from al' assms(2) Resolve have "calls s' = AList.delete k' (calls s)"
    by (auto simp: settle_resolve_eq)
  then show ?thesis using ne assms(1) Resolve by (simp add: AList.delete_conv')
next
  case (Reject k' e)
  with assms(2) obtain al' where al': "map_of (calls s) k' = Some al'"
    by (cases "map_of (calls s) k'") (auto simp: settle_None)
  from Reject assms(3) have ne: "k' \<noteq> k" by simp
  from al' assms(2) Reject have "calls s' = AList.delete k' (calls s)"
    by (auto simp: settle_reject_eq)
  then show ?thesis using ne assms(1) Reject by (simp add: AList.delete_conv')
next
  case Unmount
  then show ?thesis using assms by (auto split: if_splits)
qed

lemma settles_Cons: "settles k (ev # evs) = (settles k [ev] \<or> settles k evs)"
  by (cases ev) auto

lemma progress_of_Cons: "progress_of k (ev # evs) = progress_of k [ev] @ progress_of k evs"
  by (cases ev) auto

lemma pres_exec:
  "map_of (calls s) k = Some al \<Longrightarrow> exec E P evs s = Some s' \<Longrightarrow> \<not> settles k evs \<Longrightarrow>
   \<exists>pl. map_of (calls s') k = Some (al @ pl) \<and> map message pl = progress_of k evs
            \<and> map log_type pl = replicate (length pl) ''progress''"
proof (induction evs arbitrary: s al)
  case Nil
  then show ?case by simp
next
  case (Cons ev evs)
  from Cons.prems(2) obtain s1 where s1: "step E P ev s = Some s1" "exec E P evs s1 = Some s'"
    by (auto split: option.splits)
  from Cons.prems(3) have ns: "\<not> settles k [ev]" "\<not> settles k evs"
    using settles_Cons[of k ev evs] by auto
  from pres_step[OF Cons.prems(1) s1(1) ns(1)] obtain pl1 where
    pl1: "map_of (calls s1) k = Some (al @ pl1)" "map message pl1 = progress_of k [ev]"
         "map log_type pl1 = replicate (length pl1) ''progress''" by blast
  from Cons.IH[OF pl1(1) s1(2) ns(2)] obtain pl2 where
    pl2: "map_of (calls s') k = Some ((al @ pl1) @ pl2)" "map message pl2 = progress_of k evs"
         "map log_type pl2 = replicate (length pl2) ''progress''" by blast
  have "map_of (calls s') k = Some (al @ (pl1 @ pl2))" using pl2(1) by simp
  moreover have "map message (pl1 @ pl2) = progress_of k (ev # evs)"
    using pl1(2) pl2(2) progress_of_Cons[of k ev evs] by simp
  moreover have "map log_type (pl1 @ pl2) = replicate (length (pl1 @ pl2)) ''progress''"
    using pl1(3) pl2(3) by (simp add: replicate_add)
  ultimately show ?case by blast
qed

lemma started:
  assumes "panel_inv P s0" "ev = Click \<or> ev = TimerFire" "step E P ev s0 = Some s1"
    "next_call s1 \<noteq> next_call s0"
  shows "map_of (calls s1) (next_call s0) = Some (startup_logs E P (ticks s0))"
    and "logs s1 = startup_logs E P (ticks s0)"
    and "outs s1 = outs s0 @ (if onAnalysisStart P then [OnStart (ticker (stock_prop P))] else [])
                  @ [Analyze (next_call s0) (stock_prop P)]"
    and "\<not> analysisInProgress s0"
proof -
  have g: "\<not> analysisInProgress s0"
    using assms(2,3,4) by (auto simp: start_noop split: if_splits option.splits)
  have fresh: "map_of (calls s0) (next_call s0) = None"
  proof (rule ccontr)
    assume "map_of (calls s0) (next_call s0) \<noteq> None"
    then obtain v where "map_of (calls s0) (next_call s0) = Some v" by auto
    then have "next_call s0 \<in> fst ` set (calls s0)" by (force dest: map_of_SomeD)
    then show False using assms(1) by (auto simp: panel_inv_def calls_wf_def)
  qed
  show "\<not> analysisInProgress s0" by (rule g)
  from assms(2) show "map_of (calls s1) (next_call s0) = Some (startup_logs E P (ticks s0))"
  proof
    assume "ev = Click"
    then show ?thesis using assms(3,4) g fresh
      by (cases "analyzing s0") (auto simp: start_noop start_eq map_add_def split: if_splits)
  next
    assume "ev = TimerFire"
    then show ?thesis using assms(3,4) g fresh
      by (auto simp: start_eq map_add_def split: option.splits)
  qed
  from assms(2) show "logs s1 = startup_logs E P (ticks s0)"
  proof
    assume "ev = Click"
    then show ?thesis using assms(3,4) g
      by (cases "analyzing s0") (auto simp: start_noop start_eq split: if_splits)
  next
    assume "ev = TimerFire"
    then show ?thesis using assms(3,4) g
      by (auto simp: start_eq split: option.splits)
  qed
  from assms(2) show "outs s1 = outs s0 @ (if onAnalysisStart P then [OnStart (ticker (stock_prop P))] else [])
                  @ [Analyze (next_call s0) (stock_prop P)]"
  proof
    assume "ev = Click"
    then show ?thesis using assms(3,4) g
      by (cases "analyzing s0") (auto simp: start_noop start_eq split: if_splits)
  next
    assume "ev = TimerFire"
    then show ?thesis using assms(3,4) g
      by (auto simp: start_eq split: option.splits)
  qed
qed

lemma init_fields:
  "mounted (AIWorker P)" "\<not> analyzing (AIWorker P)" "\<not> analysisInProgress (AIWorker P)"
  "calls (AIWorker P) = []" "next_call (AIWorker P) = 0" "outs (AIWorker P) = []"
  "ticks (AIWorker P) = 0"
  by (simp_all add: AIWorker_def loadSaved_effect_def autoStart_effect_def useState_init_def
      split: option.splits)

lemma run_in_flight:
  assumes "exec E P evs0 (AIWorker P) = Some s0"
    and "ev = Click \<or> ev = TimerFire"
    and "step E P ev s0 = Some s1"
    and "next_call s1 \<noteq> next_call s0"
    and "exec E P evs s1 = Some s2"
    and "\<not> settles (next_call s0) evs"
  shows "\<exists>Pg. map_of (calls s2) (next_call s0) = Some (startup_logs E P (ticks s0) @ Pg)
            \<and> map message Pg = progress_of (next_call s0) evs
            \<and> map log_type Pg = replicate (length Pg) ''progress''"
proof -
  have inv: "panel_inv P s0" using assms(1) by (rule inv_reachable)
  have "map_of (calls s1) (next_call s0) = Some (startup_logs E P (ticks s0))"
    using started(1)[OF inv assms(2,3,4)] .
  from pres_exec[OF this assms(5,6)] show ?thesis .
qed

lemma reach_s2:
  assumes "exec E P evs0 (AIWorker P) = Some s0" "step E P ev s0 = Some s1" "exec E P evs s1 = Some s2"
  shows "panel_inv P s2"
  using inv_exec[OF inv_step[OF inv_reachable[OF assms(1)] assms(2)] assms(3)] .

lemma startup_types: "map log_type (startup_logs E P t) = [''system'', ''info'', ''info'', ''system'']"
  by (simp add: startup_logs_def mk_log_def)

lemma success_types:
  "map log_type (success_logs E r t) =
     [''success'', ''result'', ''reasoning''] @ (case eodMovement r of None \<Rightarrow> [] | Some m \<Rightarrow> [''forecast''])"
  by (cases "eodMovement r") (simp_all add: success_logs_def mk_log_def)

lemma mounted_logs:
  assumes "panel_inv P s" "mounted s" "map_of (calls s) k = Some al"
  shows "logs s = al" "calls s = [(k, al)]"
proof -
  show c: "calls s = [(k, al)]" using assms
    by (intro single_call) (simp_all add: panel_inv_def guard_inv_def)
  show "logs s = al" using assms(1,2) c by (simp add: panel_inv_def guard_inv_def)
qed

lemma exec_chain:
  "step E P ev s = Some s1 \<Longrightarrow> exec E P evs s1 = Some s2 \<Longrightarrow> step E P fin s2 = Some s3
   \<Longrightarrow> exec E P (ev # evs @ [fin]) s = Some s3"
  by (simp add: exec_append del: step.simps)

lemma exec_snoc:
  "exec E P evs s = Some s' \<Longrightarrow> step E P ev s' = Some s'' \<Longrightarrow> exec E P (evs @ [ev]) s = Some s''"
  by (simp add: exec_append del: step.simps)

lemma sample_run:
  "step E0 P0 Click (AIWorker P0) = Some (performRealAIAnalysis E0 P0 False (AIWorker P0))"
  "next_call (performRealAIAnalysis E0 P0 False (AIWorker P0)) \<noteq> next_call (AIWorker P0)"
  "\<exists>s2. exec E0 P0 [Progress 0 ''reading the news''] (performRealAIAnalysis E0 P0 False (AIWorker P0)) = Some s2"
  by (simp_all add: init_fields start_eq progress_eq del: step.simps(3))

lemma filter_none: "x \<notin> set (map f xs) \<Longrightarrow> filter (\<lambda>l. f l = x) xs = []"
  by (induction xs) auto

lemma filter_all: "map f xs = replicate (length xs) x \<Longrightarrow> filter (\<lambda>l. f l = x) xs = xs"
  by (induction xs) auto

lemma settle_resolve_case:
  "settle E P k (Inr r) s =
     (case map_of (calls s) k of
        None \<Rightarrow> None
      | Some al \<Rightarrow>
     Some (s\<lparr> calls := AList.delete k (calls s),
             logs := logs s @ success_logs E r (ticks s),
             ticks := ticks s + length (success_logs E r (ticks s)),
             complete := True,
             result := Some (r\<lparr>savedLogs := Some (al @ success_logs E r (ticks s))\<rparr>),
             outs := outs s @ complete_out P (r\<lparr>savedLogs := Some (al @ success_logs E r (ticks s))\<rparr>),
             analyzing := False,
             analysisInProgress := False \<rparr>))"
  by (cases "map_of (calls s) k") (simp_all add: settle_None settle_resolve_eq)

lemma settle_reject_case:
  "settle E P k (Inl err) s =
     (case map_of (calls s) k of
        None \<Rightarrow> None
      | Some al \<Rightarrow>
     Some (s\<lparr> calls := AList.delete k (calls s),
             logs := logs s @ [error_log E err (ticks s)],
             ticks := Suc (ticks s),
             result := Some (fallbackResult (al @ [error_log E err (ticks s)])),
             outs := outs s @ complete_out P (fallbackResult (al @ [error_log E err (ticks s)])),
             analyzing := False,
             analysisInProgress := False \<rparr>))"
  by (cases "map_of (calls s) k") (simp_all add: settle_None settle_reject_eq)

lemma progress_case:
  "step E P (Progress k m) s =
     (case map_of (calls s) k of
        None \<Rightarrow> None
      | Some al \<Rightarrow>
     Some (s\<lparr> logs := logs s @ [mk_log E (ticks s) m ''progress''],
             ticks := Suc (ticks s),
             calls := AList.update k (al @ [mk_log E (ticks s) m ''progress'']) (calls s) \<rparr>))"
  by (cases "map_of (calls s) k") (simp_all add: onProgress_def addLog_eq)

lemma start_case:
  "performRealAIAnalysis E P seen s =
     (if seen \<or> analysisInProgress s then s
      else s\<lparr> analysisInProgress := True, analyzing := True, complete := False,
        logs := startup_logs E P (ticks s),
        ticks := ticks s + 4,
        outs := outs s @ (if onAnalysisStart P then [OnStart (ticker (stock_prop P))] else [])
                  @ [Analyze (next_call s) (stock_prop P)],
        calls := calls s @ [(next_call s, startup_logs E P (ticks s))],
        next_call := Suc (next_call s) \<rparr>)"
  using start_eq[of seen s E P] start_noop[of seen s E P] by (cases "seen \<or> analysisInProgress s") simp_all

lemma settle_next_call: "settle E P k x s = Some s' \<Longrightarrow> next_call s' = next_call s"
  by (cases x) (auto simp: settle_resolve_case settle_reject_case split: option.splits)

lemma settle_guard: "settle E P k x s = Some s' \<Longrightarrow> \<not> analysisInProgress s' \<and> \<not> analyzing s'"
  by (cases x) (auto simp: settle_resolve_case settle_reject_case split: option.splits)

lemma step_starts:
  assumes "step E P ev s = Some s'" "next_call s' \<noteq> next_call s"
  shows "ev = Click \<or> ev = TimerFire" "\<not> analysisInProgress s" "analysisInProgress s'"
    "next_call s' = Suc (next_call s)"
    "outs s' = outs s @ (if onAnalysisStart P then [OnStart (ticker (stock_prop P))] else [])
                  @ [Analyze (next_call s) (stock_prop P)]"
proof -
  show ev: "ev = Click \<or> ev = TimerFire"
  proof (cases ev)
    case (Progress k m)
    then show ?thesis using assms by (auto simp: progress_case split: option.splits simp del: step.simps)
  next
    case (Resolve k r)
    then show ?thesis using assms settle_next_call by auto
  next
    case (Reject k e)
    then show ?thesis using assms settle_next_call by auto
  next
    case Unmount
    then show ?thesis using assms by (auto split: if_splits)
  qed simp_all
  from ev show "\<not> analysisInProgress s" using assms
    by (auto simp: start_case split: if_splits option.splits)
  from ev show "analysisInProgress s'" using assms
    by (auto simp: start_case split: if_splits option.splits)
  from ev show "next_call s' = Suc (next_call s)" using assms
    by (auto simp: start_case split: if_splits option.splits)
  from ev show "outs s' = outs s @ (if onAnalysisStart P then [OnStart (ticker (stock_prop P))] else [])
                  @ [Analyze (next_call s) (stock_prop P)]" using assms
    by (auto simp: start_case split: if_splits option.splits)
qed

lemma result_init: "result_inv P (AIWorker P)"
  by (simp add: result_inv_def AIWorker_def loadSaved_effect_def autoStart_effect_def
      useState_init_def split: option.splits)

lemma result_start: "result_inv P s \<Longrightarrow> result_inv P (performRealAIAnalysis E P seen s)"
  by (simp add: start_case result_inv_def)

lemma result_timer: "result_inv P s \<Longrightarrow> result_inv P (s\<lparr>timer := t\<rparr>)"
  by (simp add: result_inv_def)

lemma result_settle:
  assumes "result_inv P s" "settle E P k x s = Some s'"
  shows "result_inv P s'"
proof -
  from assms(2) obtain al where al: "map_of (calls s) k = Some al"
    by (cases "map_of (calls s) k") (auto simp: settle_None)
  have "length (AList.delete k (calls s)) < length (calls s)" using al by (rule delete_shorter)
  moreover have "length (calls s) \<le> next_call s" using assms(1) by (simp add: result_inv_def)
  ultimately have len: "length (AList.delete k (calls s)) < next_call s" by linarith
  show ?thesis
  proof (cases x)
    case (Inl err)
    then show ?thesis using assms(2) al len
      by (auto simp: settle_reject_case result_inv_def)
  next
    case (Inr r)
    then show ?thesis using assms(2) al len
      by (auto simp: settle_resolve_case result_inv_def)
  qed
qed

lemma result_step:
  assumes "result_inv P s" "step E P ev s = Some s'"
  shows "result_inv P s'"
proof (cases ev)
  case Click
  then show ?thesis using assms by (auto split: if_splits intro!: result_start)
next
  case TimerFire
  then show ?thesis using assms by (auto split: option.splits intro!: result_start result_timer)
next
  case (Progress k m)
  then show ?thesis using assms
    by (auto simp: progress_case result_inv_def length_update_present split: option.splits
        simp del: step.simps)
next
  case (Resolve k r)
  then show ?thesis using assms result_settle by simp
next
  case (Reject k e)
  then show ?thesis using assms result_settle by simp
next
  case Unmount
  then show ?thesis using assms by (auto simp: result_inv_def split: if_splits)
qed

lemma result_exec:
  "result_inv P s \<Longrightarrow> exec E P evs s = Some s' \<Longrightarrow> result_inv P s'"
  by (induction evs arbitrary: s) (auto split: option.splits dest: result_step)

lemma init_P0:
  "AIWorker P0 = \<lparr> logs = [], analyzing = False, complete = False, result = None,
       analysisInProgress = False, mounted = True, timer = None, calls = [], next_call = 0,
       ticks = 0, outs = [] \<rparr>"
  by (simp add: AIWorker_def loadSaved_effect_def autoStart_effect_def useState_init_def P0_def)

lemma init_P1:
  "AIWorker P1 = \<lparr> logs = [], analyzing = False, complete = False, result = None,
       analysisInProgress = False, mounted = True, timer = Some 500, calls = [], next_call = 0,
       ticks = 0, outs = [] \<rparr>"
  by (simp add: AIWorker_def loadSaved_effect_def autoStart_effect_def useState_init_def P0_def P1_def
      hasExistingAnalysis_def)

lemma init_P2:
  "AIWorker P2 = \<lparr> logs = [], analyzing = False, complete = True, result = Some r0,
       analysisInProgress = False, mounted = True, timer = None, calls = [], next_call = 0,
       ticks = 0, outs = [] \<rparr>"
  by (simp add: AIWorker_def loadSaved_effect_def autoStart_effect_def useState_init_def P0_def P2_def
      hasExistingAnalysis_def)

lemma noclick_idle_step:
  assumes "timer s = None" "calls s = []" "ev \<noteq> Click" "step E P ev s = Some s'"
  shows "timer s' = None \<and> calls s' = [] \<and> outs s' = outs s \<and> logs s' = logs s \<and> result s' = result s"
proof (cases ev)
  case Unmount
  then show ?thesis using assms by (auto split: if_splits)
qed (use assms in \<open>simp_all add: settle_def\<close>)

lemma noclick_idle_exec:
  "timer s = None \<Longrightarrow> calls s = [] \<Longrightarrow> Click \<notin> set evs \<Longrightarrow> exec E P evs s = Some s' \<Longrightarrow>
   timer s' = None \<and> calls s' = [] \<and> outs s' = outs s \<and> logs s' = logs s \<and> result s' = result s"
proof (induction evs arbitrary: s)
  case Nil
  then show ?case by simp
next
  case (Cons ev evs)
  from Cons.prems(4) obtain s1 where s1: "step E P ev s = Some s1" "exec E P evs s1 = Some s'"
    by (auto split: option.splits)
  from Cons.prems(3) have ne: "ev \<noteq> Click" "Click \<notin> set evs" by auto
  from noclick_idle_step[OF Cons.prems(1,2) ne(1) s1(1)]
  have a: "timer s1 = None" "calls s1 = []" "outs s1 = outs s" "logs s1 = logs s" "result s1 = result s"
    by simp_all
  from Cons.IH[OF a(1,2) ne(2) s1(2)] a show ?case by simp
qed

lemma init_saved:
  assumes "hasExistingAnalysis P"
  shows "timer (AIWorker P) = None"
    "logs (AIWorker P) = (case savedLogs_prop P of None \<Rightarrow> [] | Some l \<Rightarrow> l)"
    "result (AIWorker P) = savedResult_prop P"
    "complete (AIWorker P) = (savedResult_prop P \<noteq> None)"
  using assms
  by (auto simp: AIWorker_def loadSaved_effect_def autoStart_effect_def useState_init_def
      split: option.splits)

lemma fired_step:
  assumes "timer s = None" "ev \<noteq> Click" "step E P ev s = Some s'"
  shows "timer s' = None \<and> filter is_Analyze (outs s') = filter is_Analyze (outs s)"
proof (cases ev)
  case (Progress k m)
  then show ?thesis using assms
    by (auto simp: progress_case split: option.splits simp del: step.simps)
next
  case (Resolve k r)
  then show ?thesis using assms
    by (auto simp: settle_resolve_case complete_out_def split: option.splits)
next
  case (Reject k e)
  then show ?thesis using assms
    by (auto simp: settle_reject_case complete_out_def split: option.splits)
next
  case Unmount
  then show ?thesis using assms by (auto split: if_splits)
qed (use assms in simp_all)

lemma fired_exec:
  "timer s = None \<Longrightarrow> Click \<notin> set evs \<Longrightarrow> exec E P evs s = Some s' \<Longrightarrow>
   filter is_Analyze (outs s') = filter is_Analyze (outs s) \<and> TimerFire \<notin> set evs"
proof (induction evs arbitrary: s)
  case Nil
  then show ?case by simp
next
  case (Cons ev evs)
  from Cons.prems(3) obtain s1 where s1: "step E P ev s = Some s1" "exec E P evs s1 = Some s'"
    by (auto split: option.splits)
  from Cons.prems(2) have ne: "ev \<noteq> Click" "Click \<notin> set evs" by auto
  have nt: "ev \<noteq> TimerFire" using s1(1) Cons.prems(1) by auto
  from fired_step[OF Cons.prems(1) ne(1) s1(1)]
  have a: "timer s1 = None" "filter is_Analyze (outs s1) = filter is_Analyze (outs s)" by simp_all
  from Cons.IH[OF a(1) ne(2) s1(2)] a(2) nt show ?case by simp
qed

lemma pending_step:
  assumes "timer s = Some d" "\<not> analysisInProgress s" "calls s = []" "outs s = []"
    "ev \<noteq> Click" "ev \<noteq> TimerFire" "step E P ev s = Some s'"
  shows "timer s' = Some d \<and> \<not> analysisInProgress s' \<and> calls s' = [] \<and> outs s' = []"
proof (cases ev)
  case Unmount
  then show ?thesis using assms by (auto split: if_splits)
qed (use assms in \<open>simp_all add: settle_def\<close>)

lemma pending_fire:
  assumes "timer s = Some d" "\<not> analysisInProgress s" "outs s = []"
  shows "\<exists>s'. step E P TimerFire s = Some s' \<and> timer s' = None \<and>
           filter is_Analyze (outs s') = [Analyze (next_call s) (stock_prop P)]"
  using assms by (simp add: start_case)

lemma pending_exec:
  "timer s = Some d \<Longrightarrow> \<not> analysisInProgress s \<Longrightarrow> calls s = [] \<Longrightarrow> outs s = [] \<Longrightarrow>
   Click \<notin> set evs \<Longrightarrow> exec E P evs s = Some s' \<Longrightarrow>
   length (filter is_Analyze (outs s')) = (if TimerFire \<in> set evs then 1 else 0) \<and>
   (TimerFire \<notin> set evs \<longrightarrow>
      timer s' = Some d \<and> \<not> analysisInProgress s' \<and> outs s' = [] \<and> next_call s' = next_call s)"
proof (induction evs arbitrary: s)
  case Nil
  then show ?case by simp
next
  case (Cons ev evs)
  from Cons.prems(6) obtain s1 where s1: "step E P ev s = Some s1" "exec E P evs s1 = Some s'"
    by (auto split: option.splits)
  from Cons.prems(5) have ne: "ev \<noteq> Click" "Click \<notin> set evs" by auto
  show ?case
  proof (cases "ev = TimerFire")
    case True
    from pending_fire[OF Cons.prems(1,2,4), of E P] s1(1) True
    have a: "timer s1 = None" "length (filter is_Analyze (outs s1)) = 1" by auto
    from fired_exec[OF a(1) ne(2) s1(2)] a(2) True show ?thesis by simp
  next
    case False
    from pending_step[OF Cons.prems(1,2,3,4) ne(1) False s1(1)]
    have a: "timer s1 = Some d" "\<not> analysisInProgress s1" "calls s1 = []" "outs s1 = []" by simp_all
    have n: "next_call s1 = next_call s" using step_starts(1)[OF s1(1)] ne(1) False by blast
    from Cons.IH[OF a ne(2) s1(2)] False n show ?thesis by simp
  qed
qed

lemma init_auto:
  assumes "autoStart P" "\<not> hasExistingAnalysis P"
  shows "timer (AIWorker P) = Some 500"
  using assms
  by (auto simp: AIWorker_def loadSaved_effect_def autoStart_effect_def useState_init_def
      hasExistingAnalysis_def split: option.splits)

lemma delete_length:
  "distinct (map fst xs) \<Longrightarrow> map_of xs k = Some v \<Longrightarrow> Suc (length (AList.delete k xs)) = length xs"
proof (induction xs)
  case Nil
  then show ?case by simp
next
  case (Cons a xs)
  show ?case
  proof (cases "fst a = k")
    case True
    then have "k \<notin> fst ` set xs" using Cons.prems(1) by auto
    then have "AList.delete k xs = xs" by (induction xs) (auto simp: AList.delete_eq)
    then show ?thesis using True by (cases a) (simp add: AList.delete_eq)
  next
    case False
    then have "map_of xs k = Some v" using Cons.prems(2) by (cases a) (auto split: if_splits)
    from Cons.IH[OF _ this] Cons.prems(1) False show ?thesis by (cases a) (auto simp: AList.delete_eq)
  qed
qed

lemma trace_init: "trace_inv P (AIWorker P)"
  by (simp add: trace_inv_def init_fields)

lemma trace_start:
  assumes "trace_inv P s"
  shows "trace_inv P (performRealAIAnalysis E P seen s)"
  using assms by (auto simp: start_case trace_inv_def)

lemma trace_timer: "trace_inv P s \<Longrightarrow> trace_inv P (s\<lparr>timer := t\<rparr>)"
  by (simp add: trace_inv_def)

lemma trace_settle:
  assumes "trace_inv P s" "calls_wf s" "settle E P k x s = Some s'"
  shows "trace_inv P s'"
proof -
  from assms(3) obtain al where al: "map_of (calls s) k = Some al"
    by (cases "map_of (calls s) k") (auto simp: settle_None)
  have len: "Suc (length (AList.delete k (calls s))) = length (calls s)"
    using assms(2) al by (intro delete_length) (simp_all add: calls_wf_def)
  show ?thesis
  proof (cases x)
    case (Inl err)
    then show ?thesis using assms(1,3) al len
      by (auto simp: settle_reject_case trace_inv_def complete_out_def)
  next
    case (Inr r)
    then show ?thesis using assms(1,3) al len
      by (auto simp: settle_resolve_case trace_inv_def complete_out_def)
  qed
qed

lemma trace_step:
  assumes "trace_inv P s" "calls_wf s" "step E P ev s = Some s'"
  shows "trace_inv P s'"
proof (cases ev)
  case Click
  then show ?thesis using assms by (auto split: if_splits intro!: trace_start)
next
  case TimerFire
  then show ?thesis using assms by (auto split: option.splits intro!: trace_start trace_timer)
next
  case (Progress k m)
  then show ?thesis using assms(1,3)
    by (auto simp: progress_case trace_inv_def length_update_present split: option.splits
        simp del: step.simps)
next
  case (Resolve k r)
  then show ?thesis using assms trace_settle by simp
next
  case (Reject k e)
  then show ?thesis using assms trace_settle by simp
next
  case Unmount
  then show ?thesis using assms by (auto simp: trace_inv_def split: if_splits)
qed

lemma trace_exec:
  "trace_inv P s \<Longrightarrow> panel_inv P s \<Longrightarrow> exec E P evs s = Some s' \<Longrightarrow> trace_inv P s'"
proof (induction evs arbitrary: s)
  case Nil
  then show ?case by simp
next
  case (Cons ev evs)
  from Cons.prems(3) obtain s1 where s1: "step E P ev s = Some s1" "exec E P evs s1 = Some s'"
    by (auto split: option.splits)
  have "trace_inv P s1" using trace_step[OF Cons.prems(1) _ s1(1)] Cons.prems(2)
    by (simp add: panel_inv_def)
  moreover have "panel_inv P s1" using inv_step[OF Cons.prems(2) s1(1)] .
  ultimately show ?case using Cons.IH s1(2) by blast
qed

lemma P0_fields:
  "onAnalysisStart P0" "onAnalysisComplete P0" "savedResult_prop P0 = None"
  "ticker (stock_prop P0) = ''ACME''"
  by (simp_all add: P0_def)

section \<open>The claims\<close>

text \<open>
  \<^bold>\<open>C1.\<close> For every run in which the service call resolves with \<open>aiResult\<close>, the
  \<open>savedLogs\<close> of the final result (the new value of \<open>result\<close>, and the argument of
  \<open>onAnalysisComplete\<close>) are, in order: one \<open>system\<close>, two \<open>info\<close> and one \<open>system\<close>
  entry, one \<open>progress\<close> entry per progress callback of this run, a \<open>success\<close> entry, a
  \<open>result\<close> entry that shows the signal and \<open>buyPercentage\<close>, a \<open>reasoning\<close> entry and,
  when \<open>eodMovement\<close> is defined, one \<open>forecast\<close> entry whose message begins with the
  arrow for the sign of \<open>eodMovement\<close>; when \<open>eodMovement\<close> is absent there is no \<open>forecast\<close>
  entry and the sequence ends with the \<open>reasoning\<close> entry. All other fields of the final
  result are those of \<open>aiResult\<close>.

  A run is described by its events: the panel is in a reachable state \<open>s0\<close>; a click
  or the timer (\<open>ev\<close>) starts run number \<open>next_call s0\<close>, which gives \<open>s1\<close>; then any
  events \<open>evs\<close> happen in which that call does not settle, which gives \<open>s2\<close>.
\<close>

theorem C1_success_log_sequence:
  assumes "exec E P evs0 (AIWorker P) = Some s0"
    and "ev = Click \<or> ev = TimerFire"
    and "step E P ev s0 = Some s1"
    and "next_call s1 \<noteq> next_call s0"
    and "exec E P evs s1 = Some s2"
    and "\<not> settles (next_call s0) evs"
  shows "\<exists>s3 S Pg l5 l6 l7 F.
      step E P (Resolve (next_call s0) aiResult) s2 = Some s3 \<and>
      result s3 = Some (aiResult\<lparr>savedLogs := Some (S @ Pg @ [l5, l6, l7] @ F)\<rparr>) \<and>
      (onAnalysisComplete P \<longrightarrow>
         outs s3 = outs s2 @ [OnComplete (ticker (stock_prop P))
                                 (aiResult\<lparr>savedLogs := Some (S @ Pg @ [l5, l6, l7] @ F)\<rparr>)]) \<and>
      map log_type S = [''system'', ''info'', ''info'', ''system''] \<and>
      map log_type Pg = replicate (length Pg) ''progress'' \<and>
      map message Pg = progress_of (next_call s0) evs \<and>
      log_type l5 = ''success'' \<and>
      log_type l6 = ''result'' \<and>
      message l6 = emoji_target @ '' Signal: '' @ toUpperCase E (signal aiResult)
                     @ '' ('' @ number_toString E (buyPercentage aiResult) @ ''%)'' \<and>
      log_type l7 = ''reasoning'' \<and>
      message l7 = emoji_thought @ '' '' @ reasoning aiResult \<and>
      (case eodMovement aiResult of
         None \<Rightarrow> F = []
       | Some m \<Rightarrow> \<exists>f rest. F = [f] \<and> log_type f = ''forecast'' \<and>
           message f = (if 0 < m then emoji_up else if m < 0 then emoji_down else emoji_flat) @ rest)"
proof -
  from run_in_flight[OF assms] obtain Pg where
    Pg: "map_of (calls s2) (next_call s0) = Some (startup_logs E P (ticks s0) @ Pg)"
        "map message Pg = progress_of (next_call s0) evs"
        "map log_type Pg = replicate (length Pg) ''progress''" by blast
  let ?S = "startup_logs E P (ticks s0)"
  let ?post = "success_logs E aiResult (ticks s2)"
  let ?s3 = "s2\<lparr> calls := AList.delete (next_call s0) (calls s2),
             logs := logs s2 @ ?post,
             ticks := ticks s2 + length ?post,
             complete := True,
             result := Some (aiResult\<lparr>savedLogs := Some ((?S @ Pg) @ ?post)\<rparr>),
             outs := outs s2 @ complete_out P (aiResult\<lparr>savedLogs := Some ((?S @ Pg) @ ?post)\<rparr>),
             analyzing := False,
             analysisInProgress := False \<rparr>"
  have st: "step E P (Resolve (next_call s0) aiResult) s2 = Some ?s3"
    using settle_resolve_eq[OF Pg(1)] by simp
  obtain l5 l6 l7 F where post: "?post = [l5, l6, l7] @ F"
    "log_type l5 = ''success''" "log_type l6 = ''result''"
    "message l6 = emoji_target @ '' Signal: '' @ toUpperCase E (signal aiResult)
                     @ '' ('' @ number_toString E (buyPercentage aiResult) @ ''%)''"
    "log_type l7 = ''reasoning''" "message l7 = emoji_thought @ '' '' @ reasoning aiResult"
    "(case eodMovement aiResult of
         None \<Rightarrow> F = []
       | Some m \<Rightarrow> \<exists>f rest. F = [f] \<and> log_type f = ''forecast'' \<and>
           message f = (if 0 < m then emoji_up else if m < 0 then emoji_down else emoji_flat) @ rest)"
    by (cases "eodMovement aiResult")
       (simp_all add: success_logs_def mk_log_def movementDirection_def)
  have S: "map log_type ?S = [''system'', ''info'', ''info'', ''system'']"
    by (simp add: startup_logs_def mk_log_def)
  have res: "result ?s3 = Some (aiResult\<lparr>savedLogs := Some (?S @ Pg @ [l5, l6, l7] @ F)\<rparr>)"
    using post(1) by simp
  have out: "onAnalysisComplete P \<longrightarrow>
         outs ?s3 = outs s2 @ [OnComplete (ticker (stock_prop P))
                                 (aiResult\<lparr>savedLogs := Some (?S @ Pg @ [l5, l6, l7] @ F)\<rparr>)]"
    using post(1) by (simp add: complete_out_def)
  show ?thesis
    apply (rule exI[of _ ?s3], rule exI[of _ ?S], rule exI[of _ Pg])
    apply (rule exI[of _ l5], rule exI[of _ l6], rule exI[of _ l7], rule exI[of _ F])
    using st res out S Pg(2,3) post(2-) by (intro conjI)
qed

text \<open>
  The spec's example: one progress callback, then the call resolves with movement 1.8.
\<close>

theorem C1_success_log_sequence_witness:
  "map_option (map log_type)
     (Option.bind
        (Option.bind (exec E0 P0 [Click, Progress 0 ''reading the news'', Resolve 0 r0] (AIWorker P0)) result)
        savedLogs)
   = Some [''system'', ''info'', ''info'', ''system'', ''progress'',
           ''success'', ''result'', ''reasoning'', ''forecast'']"
proof -
  let ?s1 = "performRealAIAnalysis E0 P0 False (AIWorker P0)"
  have h1: "exec E0 P0 [] (AIWorker P0) = Some (AIWorker P0)" by simp
  have h2: "Click = Click \<or> Click = TimerFire" by simp
  note h3 = sample_run(1) and h4 = sample_run(2)
  from sample_run(3) obtain s2 where
    h5: "exec E0 P0 [Progress 0 ''reading the news''] ?s1 = Some s2" by blast
  have h6: "\<not> settles (next_call (AIWorker P0)) [Progress 0 ''reading the news'']" by simp
  from C1_success_log_sequence[OF h1 h2 h3 h4 h5 h6, of r0]
  obtain s3 S Pg l5 l6 l7 F where c:
    "step E0 P0 (Resolve (next_call (AIWorker P0)) r0) s2 = Some s3"
    "result s3 = Some (r0\<lparr>savedLogs := Some (S @ Pg @ [l5, l6, l7] @ F)\<rparr>)"
    "map log_type S = [''system'', ''info'', ''info'', ''system'']"
    "map log_type Pg = replicate (length Pg) ''progress''"
    "map message Pg = progress_of (next_call (AIWorker P0)) [Progress 0 ''reading the news'']"
    "log_type l5 = ''success''" "log_type l6 = ''result''" "log_type l7 = ''reasoning''"
    "(case eodMovement r0 of
         None \<Rightarrow> F = []
       | Some m \<Rightarrow> \<exists>f rest. F = [f] \<and> log_type f = ''forecast'' \<and>
           message f = (if 0 < m then emoji_up else if m < 0 then emoji_down else emoji_flat) @ rest)"
    by (elim exE conjE) (rule that; assumption)
  have n0: "next_call (AIWorker P0) = 0" by (simp add: init_fields)
  have "length (map message Pg) = 1" using c(5) n0 by simp
  then have lp: "length Pg = 1" by simp
  from c(9) have "map log_type F = [''forecast'']" by (auto simp: r0_def)
  with c(3,4,6,7,8) lp have ty: "map log_type (S @ Pg @ [l5, l6, l7] @ F)
     = [''system'', ''info'', ''info'', ''system'', ''progress'',
           ''success'', ''result'', ''reasoning'', ''forecast'']" by simp
  have "exec E0 P0 [Click, Progress 0 ''reading the news'', Resolve 0 r0] (AIWorker P0) = Some s3"
    using exec_chain[OF h3 h5 c(1)] n0 by simp
  then show ?thesis using c(2) ty by simp
qed

text \<open>
  \<^bold>\<open>C2.\<close> For every run and every sequence of progress callbacks before the call
  settles, the run's \<open>allLogs\<close> consists of the four startup entries followed by exactly
  one \<open>progress\<close> entry per callback, with the callbacks' messages in the order of the
  calls (and while the panel is mounted the visible \<open>logs\<close> are the same sequence).
  However the call then settles (\<open>settle\<close> with \<open>Inr\<close> is the step of \<open>Resolve\<close>, with
  \<open>Inl\<close> that of \<open>Reject\<close>), the entries appended after it come last, are at least one,
  and none of them is a \<open>progress\<close> entry.

  A run is described by its events: the panel is in a reachable state \<open>s0\<close>; a click
  or the timer (\<open>ev\<close>) starts run number \<open>next_call s0\<close>, which gives \<open>s1\<close>; then any
  events \<open>evs\<close> happen in which that call does not settle, which gives \<open>s2\<close>.
\<close>

theorem C2_progress_entries:
  assumes "exec E P evs0 (AIWorker P) = Some s0"
    and "ev = Click \<or> ev = TimerFire"
    and "step E P ev s0 = Some s1"
    and "next_call s1 \<noteq> next_call s0"
    and "exec E P evs s1 = Some s2"
    and "\<not> settles (next_call s0) evs"
  shows "\<exists>S Pg.
      map_of (calls s2) (next_call s0) = Some (S @ Pg) \<and>
      (mounted s2 \<longrightarrow> logs s2 = S @ Pg) \<and>
      map log_type S = [''system'', ''info'', ''info'', ''system''] \<and>
      map message Pg = progress_of (next_call s0) evs \<and>
      map log_type Pg = replicate (length (progress_of (next_call s0) evs)) ''progress'' \<and>
      (\<forall>settled. \<exists>s3 fr Post.
          settle E P (next_call s0) settled s2 = Some s3 \<and>
          result s3 = Some fr \<and>
          savedLogs fr = Some (S @ Pg @ Post) \<and>
          (mounted s2 \<longrightarrow> logs s3 = S @ Pg @ Post) \<and>
          Post \<noteq> [] \<and> ''progress'' \<notin> set (map log_type Post))"
proof -
  from run_in_flight[OF assms] obtain Pg where
    Pg: "map_of (calls s2) (next_call s0) = Some (startup_logs E P (ticks s0) @ Pg)"
        "map message Pg = progress_of (next_call s0) evs"
        "map log_type Pg = replicate (length Pg) ''progress''" by blast
  let ?S = "startup_logs E P (ticks s0)"
  have inv2: "panel_inv P s2" using reach_s2[OF assms(1,3,5)] .
  have len: "length Pg = length (progress_of (next_call s0) evs)"
    using Pg(2) by (metis length_map)
  have lg: "mounted s2 \<longrightarrow> logs s2 = ?S @ Pg"
    using mounted_logs(1)[OF inv2 _ Pg(1)] by simp
  have fin: "\<exists>s3 fr Post.
          settle E P (next_call s0) settled s2 = Some s3 \<and>
          result s3 = Some fr \<and>
          savedLogs fr = Some (?S @ Pg @ Post) \<and>
          (mounted s2 \<longrightarrow> logs s3 = ?S @ Pg @ Post) \<and>
          Post \<noteq> [] \<and> ''progress'' \<notin> set (map log_type Post)" for settled
  proof (cases settled)
    case (Inl err)
    show ?thesis unfolding Inl settle_reject_eq[OF Pg(1)] using lg
      by (simp add: error_log_def mk_log_def fallbackResult_def)
  next
    case (Inr r)
    have "success_logs E r (ticks s2) \<noteq> []" by (simp add: success_logs_def)
    moreover have "''progress'' \<notin> set (map log_type (success_logs E r (ticks s2)))"
      unfolding success_types by (cases "eodMovement r") simp_all
    ultimately show ?thesis unfolding Inr settle_resolve_eq[OF Pg(1)] using lg
      by simp
  qed
  show ?thesis
    apply (rule exI[of _ ?S], rule exI[of _ Pg])
    using Pg(1) lg startup_types Pg(2) Pg(3)[unfolded len] fin by (intro conjI allI)
qed

text \<open>
  One progress callback, then a rejection: the \<open>progress\<close> entries of the saved logs are
  exactly the one with the callback's message.
\<close>

theorem C2_progress_entries_witness:
  "map_option (\<lambda>L. map message (filter (\<lambda>l. log_type l = ''progress'') L))
     (Option.bind
        (Option.bind (exec E0 P0 [Click, Progress 0 ''reading the news'', Reject 0 (Error ''timeout'')]
                        (AIWorker P0)) result)
        savedLogs)
   = Some [''reading the news'']"
proof -
  let ?s1 = "performRealAIAnalysis E0 P0 False (AIWorker P0)"
  have h1: "exec E0 P0 [] (AIWorker P0) = Some (AIWorker P0)" by simp
  have h2: "Click = Click \<or> Click = TimerFire" by simp
  note h3 = sample_run(1) and h4 = sample_run(2)
  from sample_run(3) obtain s2 where
    h5: "exec E0 P0 [Progress 0 ''reading the news''] ?s1 = Some s2" by blast
  have h6: "\<not> settles (next_call (AIWorker P0)) [Progress 0 ''reading the news'']" by simp
  have n0: "next_call (AIWorker P0) = 0" by (simp add: init_fields)
  from C2_progress_entries[OF h1 h2 h3 h4 h5 h6]
  obtain S Pg where c:
    "map log_type S = [''system'', ''info'', ''info'', ''system'']"
    "map message Pg = progress_of (next_call (AIWorker P0)) [Progress 0 ''reading the news'']"
    "map log_type Pg = replicate (length (progress_of (next_call (AIWorker P0)) [Progress 0 ''reading the news''])) ''progress''"
    "\<forall>settled. \<exists>s3 fr Post.
          settle E0 P0 (next_call (AIWorker P0)) settled s2 = Some s3 \<and>
          result s3 = Some fr \<and>
          savedLogs fr = Some (S @ Pg @ Post) \<and>
          (mounted s2 \<longrightarrow> logs s3 = S @ Pg @ Post) \<and>
          Post \<noteq> [] \<and> ''progress'' \<notin> set (map log_type Post)"
    by (elim exE conjE) (rule that; assumption)
  from c(4) obtain s3 fr Post where d:
    "settle E0 P0 (next_call (AIWorker P0)) (Inl (Error ''timeout'')) s2 = Some s3"
    "result s3 = Some fr" "savedLogs fr = Some (S @ Pg @ Post)"
    "''progress'' \<notin> set (map log_type Post)" by blast
  have st: "step E0 P0 (Reject 0 (Error ''timeout'')) s2 = Some s3" using d(1) n0 by simp
  have ex: "exec E0 P0 [Click, Progress 0 ''reading the news'', Reject 0 (Error ''timeout'')] (AIWorker P0) = Some s3"
    using exec_chain[OF h3 h5 st] by simp
  have "length (map log_type Pg) = 1" using c(3) n0 by simp
  then have "length Pg = 1" by simp
  then have lp: "map log_type Pg = replicate (length Pg) ''progress''" using c(3) n0 by simp
  have f1: "filter (\<lambda>l. log_type l = ''progress'') S = []"
    by (rule filter_none) (simp add: c(1))
  have f2: "filter (\<lambda>l. log_type l = ''progress'') Pg = Pg" using lp by (rule filter_all)
  have f3: "filter (\<lambda>l. log_type l = ''progress'') Post = []" using d(4) by (rule filter_none)
  show ?thesis using ex d(2,3) f1 f2 f3 c(2) n0 by simp
qed

text \<open>
  \<^bold>\<open>C3\<close> (as amended: the fallback's \<open>reasoning\<close> is the literal of line 142,
  \<open>AI service unavailable\<close>). For every run in which the service call rejects with
  \<open>err\<close>, one entry of category \<open>error\<close> whose message ends with \<open>err\<close>'s description is
  appended to the logs accumulated by the run; \<open>result\<close> becomes the fallback result with
  \<open>signal\<close> hold, \<open>buyPercentage\<close> 30, \<open>eodMovement\<close> 0, \<open>confidence\<close> 0.2 and these logs
  as \<open>savedLogs\<close>; \<open>onAnalysisComplete\<close> is called with the ticker and this result, the
  callback that a resolution of the same call would have called; and \<open>analyzing\<close> and
  the ref are cleared.

  A run is described by its events: the panel is in a reachable state \<open>s0\<close>; a click
  or the timer (\<open>ev\<close>) starts run number \<open>next_call s0\<close>, which gives \<open>s1\<close>; then any
  events \<open>evs\<close> happen in which that call does not settle, which gives \<open>s2\<close>.
\<close>

theorem C3_failure_fallback:
  assumes "exec E P evs0 (AIWorker P) = Some s0"
    and "ev = Click \<or> ev = TimerFire"
    and "step E P ev s0 = Some s1"
    and "next_call s1 \<noteq> next_call s0"
    and "exec E P evs s1 = Some s2"
    and "\<not> settles (next_call s0) evs"
  shows "\<exists>s3 acc errorLog.
      map_of (calls s2) (next_call s0) = Some acc \<and>
      step E P (Reject (next_call s0) err) s2 = Some s3 \<and>
      result s3 = Some (fallbackResult (acc @ [errorLog])) \<and>
      (onAnalysisComplete P \<longrightarrow>
         outs s3 = outs s2 @ [OnComplete (ticker (stock_prop P)) (fallbackResult (acc @ [errorLog]))]) \<and>
      log_type errorLog = ''error'' \<and>
      message errorLog = emoji_cross @ '' Analysis failed: '' @ error_message err \<and>
      fallbackResult (acc @ [errorLog]) =
        \<lparr> signal = ''hold'', buyPercentage = 30, reasoning = ''AI service unavailable'',
          eodMovement = Some 0, confidence = 2 / 10, analysisTimestamp = None,
          hasTechnicalData = None, technicalBars = None, hasFullArticle = None,
          savedLogs = Some (acc @ [errorLog]) \<rparr> \<and>
      \<not> analyzing s3 \<and> \<not> analysisInProgress s3 \<and>
      (\<forall>aiResult. \<exists>s3' fr.
          step E P (Resolve (next_call s0) aiResult) s2 = Some s3' \<and>
          (onAnalysisComplete P \<longrightarrow> outs s3' = outs s2 @ [OnComplete (ticker (stock_prop P)) fr]))"
proof -
  from run_in_flight[OF assms] obtain Pg where
    Pg: "map_of (calls s2) (next_call s0) = Some (startup_logs E P (ticks s0) @ Pg)" by blast
  let ?acc = "startup_logs E P (ticks s0) @ Pg"
  let ?l = "error_log E err (ticks s2)"
  have 1: "step E P (Reject (next_call s0) err) s2 =
     Some (s2\<lparr> calls := AList.delete (next_call s0) (calls s2),
             logs := logs s2 @ [?l],
             ticks := Suc (ticks s2),
             result := Some (fallbackResult (?acc @ [?l])),
             outs := outs s2 @ complete_out P (fallbackResult (?acc @ [?l])),
             analyzing := False,
             analysisInProgress := False \<rparr>)"
    using settle_reject_eq[OF Pg] by simp
  have 2: "\<exists>s3' fr. step E P (Resolve (next_call s0) aiResult) s2 = Some s3' \<and>
          (onAnalysisComplete P \<longrightarrow> outs s3' = outs s2 @ [OnComplete (ticker (stock_prop P)) fr])"
    for aiResult
    using settle_resolve_eq[OF Pg] by (simp add: complete_out_def)
  show ?thesis
    apply (rule exI, rule exI[of _ ?acc], rule exI[of _ ?l])
    apply (intro conjI)
             apply (rule Pg)
            apply (rule 1)
           apply simp
          apply (simp add: complete_out_def)
         apply (simp add: error_log_def mk_log_def)
        apply (simp add: error_log_def mk_log_def)
       apply (simp add: fallbackResult_def)
      apply simp
     apply simp
    using 2 apply blast
    done
qed

text \<open>
  The claim as the spec words it gives the fallback the reasoning \<open>service unavailable\<close>.
  A panel with no saved session is clicked and the call rejects with \<open>timeout\<close>: the
  reasoning of the result is \<open>AI service unavailable\<close>.
\<close>

theorem C3_reasoning_counterexample:
  "map_option reasoning
     (Option.bind (exec E0 P0 [Click, Reject 0 (Error ''timeout'')] (AIWorker P0)) result)
   = Some ''AI service unavailable'' \<and>
   map_option reasoning
     (Option.bind (exec E0 P0 [Click, Reject 0 (Error ''timeout'')] (AIWorker P0)) result)
   \<noteq> Some ''service unavailable''"
proof -
  let ?s1 = "performRealAIAnalysis E0 P0 False (AIWorker P0)"
  let ?e = "Error ''timeout''"
  have m: "map_of (calls ?s1) 0 = Some (startup_logs E0 P0 0)"
    by (simp add: init_fields start_eq)
  have "\<exists>s3. step E0 P0 (Reject 0 ?e) ?s1 = Some s3 \<and>
          result s3 = Some (fallbackResult (startup_logs E0 P0 0 @ [error_log E0 ?e (ticks ?s1)]))"
    using settle_reject_eq[OF m] by simp
  then obtain s3 where s3: "step E0 P0 (Reject 0 ?e) ?s1 = Some s3"
    "result s3 = Some (fallbackResult (startup_logs E0 P0 0 @ [error_log E0 ?e (ticks ?s1)]))"
    by blast
  have "exec E0 P0 [Click, Reject 0 ?e] (AIWorker P0) = Some s3"
    using sample_run(1) s3(1) by (simp del: step.simps)
  then show ?thesis using s3(2) by (simp add: fallbackResult_def)
qed

text \<open>
  The spec's example: the call rejects with \<open>timeout\<close>.
\<close>

theorem C3_failure_fallback_witness:
  "map_option (\<lambda>fr. (signal fr, buyPercentage fr, eodMovement fr, confidence fr,
                      map_option (\<lambda>L. log_type (last L)) (savedLogs fr)))
     (Option.bind (exec E0 P0 [Click, Reject 0 (Error ''timeout'')] (AIWorker P0)) result)
   = Some (''hold'', 30, Some 0, 2 / 10, Some ''error'')"
proof -
  let ?s1 = "performRealAIAnalysis E0 P0 False (AIWorker P0)"
  have h1: "exec E0 P0 [] (AIWorker P0) = Some (AIWorker P0)" by simp
  have h2: "Click = Click \<or> Click = TimerFire" by simp
  note h3 = sample_run(1) and h4 = sample_run(2)
  have h5: "exec E0 P0 [] ?s1 = Some ?s1" by simp
  have h6: "\<not> settles (next_call (AIWorker P0)) []" by simp
  have n0: "next_call (AIWorker P0) = 0" by (simp add: init_fields)
  from C3_failure_fallback[OF h1 h2 h3 h4 h5 h6, of "Error ''timeout''"]
  obtain s3 acc errorLog where c:
    "step E0 P0 (Reject (next_call (AIWorker P0)) (Error ''timeout'')) ?s1 = Some s3"
    "result s3 = Some (fallbackResult (acc @ [errorLog]))"
    "log_type errorLog = ''error''"
    "fallbackResult (acc @ [errorLog]) =
        \<lparr> signal = ''hold'', buyPercentage = 30, reasoning = ''AI service unavailable'',
          eodMovement = Some 0, confidence = 2 / 10, analysisTimestamp = None,
          hasTechnicalData = None, technicalBars = None, hasFullArticle = None,
          savedLogs = Some (acc @ [errorLog]) \<rparr>"
    by (elim exE conjE) (rule that; assumption)
  have "exec E0 P0 [Click, Reject 0 (Error ''timeout'')] (AIWorker P0) = Some s3"
    using h3 c(1) n0 by (simp del: step.simps)
  then show ?thesis using c(2,3) unfolding c(4) by simp
qed

text \<open>
  \<^bold>\<open>C4\<close> (as amended: the result is present exactly when a saved result was
  supplied or a run of this panel has settled, which is more often than when
  \<open>complete\<close> is true or a saved result was supplied; and the ref tells whether a call
  is pending only while the panel is mounted). In every state a panel can reach:
  \<open>analyzing\<close> and \<open>complete\<close> are not both true; if \<open>complete\<close> is true or the props
  carried a saved result, \<open>result\<close> is present; \<open>result\<close> is present if and only if the
  props carried a saved result or some call has settled (\<open>next_call\<close> counts the runs
  started and \<open>calls\<close> holds those whose call is pending, so a call has settled when
  \<open>calls\<close> is shorter than \<open>next_call\<close>), hence a panel without a saved result has no
  result until its first call resolves or rejects; when the ref is set a call is
  pending; while the panel is mounted the ref is set exactly when a call is pending,
  and at most one is; a step that starts a run finds the ref clear and sets it; and the
  ref is clear after the call resolves, after it rejects, and after the teardown.
\<close>

theorem C4_panel_invariant:
  assumes "exec E P evs (AIWorker P) = Some s"
  shows "\<not> (analyzing s \<and> complete s) \<and>
     (complete s \<or> savedResult_prop P \<noteq> None \<longrightarrow> result s \<noteq> None) \<and>
     (result s \<noteq> None) = (savedResult_prop P \<noteq> None \<or> length (calls s) < next_call s) \<and>
     length (calls s) \<le> next_call s \<and>
     (analysisInProgress s \<longrightarrow> calls s \<noteq> []) \<and>
     (mounted s \<longrightarrow> (analysisInProgress s \<longleftrightarrow> calls s \<noteq> []) \<and> length (calls s) \<le> 1) \<and>
     (\<forall>ev s'. step E P ev s = Some s' \<longrightarrow> next_call s' \<noteq> next_call s \<longrightarrow>
         \<not> analysisInProgress s \<and> analysisInProgress s') \<and>
     (\<forall>k aiResult s'. step E P (Resolve k aiResult) s = Some s' \<longrightarrow> \<not> analysisInProgress s') \<and>
     (\<forall>k err s'. step E P (Reject k err) s = Some s' \<longrightarrow> \<not> analysisInProgress s') \<and>
     (\<forall>s'. step E P Unmount s = Some s' \<longrightarrow> \<not> analysisInProgress s')"
proof -
  have ri: "result_inv P s" using result_exec[OF result_init assms] .
  have r1: "(result s \<noteq> None) = (savedResult_prop P \<noteq> None \<or> length (calls s) < next_call s)"
    using ri by (simp add: result_inv_def)
  have r2: "length (calls s) \<le> next_call s" using ri by (simp add: result_inv_def)
  have inv: "panel_inv P s" using assms by (rule inv_reachable)
  have 1: "\<not> (analyzing s \<and> complete s)" using inv by (simp add: panel_inv_def flags_inv_def)
  have 2: "complete s \<or> savedResult_prop P \<noteq> None \<longrightarrow> result s \<noteq> None"
    using inv by (auto simp: panel_inv_def flags_inv_def)
  have 3: "analysisInProgress s \<longrightarrow> calls s \<noteq> []"
    using inv by (simp add: panel_inv_def guard_inv_def)
  have 4: "mounted s \<longrightarrow> (analysisInProgress s \<longleftrightarrow> calls s \<noteq> []) \<and> length (calls s) \<le> 1"
    using inv by (auto simp: panel_inv_def guard_inv_def)
  have 5: "\<forall>ev s'. step E P ev s = Some s' \<longrightarrow> next_call s' \<noteq> next_call s \<longrightarrow>
         \<not> analysisInProgress s \<and> analysisInProgress s'"
    using step_starts(2,3) by blast
  have 6: "\<forall>k aiResult s'. step E P (Resolve k aiResult) s = Some s' \<longrightarrow> \<not> analysisInProgress s'"
    using settle_guard by auto
  have 7: "\<forall>k err s'. step E P (Reject k err) s = Some s' \<longrightarrow> \<not> analysisInProgress s'"
    using settle_guard by auto
  have 8: "\<forall>s'. step E P Unmount s = Some s' \<longrightarrow> \<not> analysisInProgress s'"
    by (auto split: if_splits)
  show ?thesis using 1 2 r1 r2 3 4 5 6 7 8 by (intro conjI)
qed

text \<open>
  The claim as the spec words it has \<open>result\<close> present only if \<open>complete\<close> is true or a
  saved result was supplied. A panel with no saved session is clicked, the call
  resolves, and the panel is clicked again (re-analyze, line 83 clears \<open>complete\<close> and
  nothing clears \<open>result\<close>): the result of the first run is present while \<open>complete\<close> is
  false.
\<close>

theorem C4_result_iff_counterexample:
  "Option.bind (exec E0 P0 [Click, Resolve 0 r0, Click] (AIWorker P0)) result \<noteq> None \<and>
   map_option complete (exec E0 P0 [Click, Resolve 0 r0, Click] (AIWorker P0)) = Some False \<and>
   savedResult_prop P0 = None"
proof -
  have "savedResult_prop P0 = None" by (simp add: P0_def)
  then show ?thesis by (simp add: init_P0 start_case settle_resolve_case)
qed

text \<open>
  The first run of a panel without a saved result, in progress: \<open>analyzing\<close> is true,
  so \<open>complete\<close> is false, and there is no result yet.
\<close>

theorem C4_panel_invariant_witness:
  "map_option analyzing (exec E0 P0 [Click, Progress 0 ''reading the news''] (AIWorker P0)) = Some True \<and>
   map_option complete (exec E0 P0 [Click, Progress 0 ''reading the news''] (AIWorker P0)) = Some False \<and>
   map_option result (exec E0 P0 [Click, Progress 0 ''reading the news''] (AIWorker P0)) = Some None"
proof -
  obtain s where s: "exec E0 P0 [Click, Progress 0 ''reading the news''] (AIWorker P0) = Some s"
    by (simp add: init_P0 start_case progress_case del: step.simps(3))
  have a: "analyzing s" "next_call s = 1" "length (calls s) = 1" using s
    by (auto simp: init_P0 start_case progress_case simp del: step.simps(3))
  have p: "savedResult_prop P0 = None" by (simp add: P0_def)
  note c4 = C4_panel_invariant[OF s]
  from c4 a(1) have c: "\<not> complete s" by blast
  have "(result s \<noteq> None) = (savedResult_prop P0 \<noteq> None \<or> length (calls s) < next_call s)"
    using c4[THEN conjunct2, THEN conjunct2] by (rule conjunct1)
  then have "result s = None" using a(2,3) p by simp
  then show ?thesis using s a(1) c by simp
qed

text \<open>
  \<^bold>\<open>C5\<close> (as amended: at most one run is in flight while the panel is mounted). In
  every state a panel can reach: while it is mounted at most one call is pending, and
  the ref is set whenever one is; and when the ref is set, \<open>performRealAIAnalysis\<close>
  returns the state it was called in, whatever the closure saw: a click leaves the
  state as it is and the timer's call changes nothing but the timer itself, so nothing
  is logged and the service is not called.
\<close>

theorem C5_guarded_start_is_noop:
  assumes "exec E P evs (AIWorker P) = Some s"
  shows "(mounted s \<longrightarrow> length (calls s) \<le> 1) \<and>
     (mounted s \<and> calls s \<noteq> [] \<longrightarrow> analysisInProgress s) \<and>
     (analysisInProgress s \<longrightarrow>
        performRealAIAnalysis E P seen s = s \<and>
        (mounted s \<longrightarrow> step E P Click s = Some s) \<and>
        (\<forall>delay. timer s = Some delay \<longrightarrow> step E P TimerFire s = Some (s\<lparr>timer := None\<rparr>)))"
proof -
  have inv: "panel_inv P s" using assms by (rule inv_reachable)
  have 1: "mounted s \<longrightarrow> length (calls s) \<le> 1"
    using inv by (simp add: panel_inv_def guard_inv_def)
  have 2: "mounted s \<and> calls s \<noteq> [] \<longrightarrow> analysisInProgress s"
    using inv by (simp add: panel_inv_def guard_inv_def)
  have 3: "analysisInProgress s \<longrightarrow>
        performRealAIAnalysis E P seen s = s \<and>
        (mounted s \<longrightarrow> step E P Click s = Some s) \<and>
        (\<forall>delay. timer s = Some delay \<longrightarrow> step E P TimerFire s = Some (s\<lparr>timer := None\<rparr>))"
    by (simp add: start_noop)
  show ?thesis using 1 2 3 by (intro conjI)
qed

text \<open>
  The claim as the spec words it allows one run in flight at any time. A panel with
  \<open>autoStart\<close> is clicked before the timer fires and is then torn down, which clears the
  ref (line 159) and cancels neither the call nor the timer (lines 32--34 have no
  cleanup); the timer then starts a second run while the first call is pending.
\<close>

theorem C5_two_runs_counterexample:
  "map_option length (map_option calls (exec E0 P1 [Click, Unmount, TimerFire] (AIWorker P1))) = Some 2"
  by (simp add: init_P1 start_case)

text \<open>
  A panel with \<open>autoStart\<close> is clicked before the timer fires: the timer's call and a
  second click start nothing.
\<close>

theorem C5_guarded_start_is_noop_witness:
  "map_option length (map_option calls (exec E0 P1 [Click, TimerFire, Click] (AIWorker P1))) = Some 1 \<and>
   exec E0 P1 [Click, TimerFire, Click] (AIWorker P1) = exec E0 P1 [Click, TimerFire] (AIWorker P1)"
proof -
  obtain s where s: "exec E0 P1 [Click] (AIWorker P1) = Some s"
    by (simp add: init_P1 start_case)
  have g: "analysisInProgress s" "mounted s" "timer s = Some 500" "length (calls s) = 1" using s
    by (auto simp: init_P1 start_case)
  have t: "step E0 P1 TimerFire s = Some (s\<lparr>timer := None\<rparr>)"
    using C5_guarded_start_is_noop[OF s] g by blast
  have e2: "exec E0 P1 [Click, TimerFire] (AIWorker P1) = Some (s\<lparr>timer := None\<rparr>)"
    using exec_append[of E0 P1 "[Click]" "[TimerFire]" "AIWorker P1"] s t by (simp del: step.simps)
  have g2: "analysisInProgress (s\<lparr>timer := None\<rparr>)" "mounted (s\<lparr>timer := None\<rparr>)" using g by simp_all
  have c: "step E0 P1 Click (s\<lparr>timer := None\<rparr>) = Some (s\<lparr>timer := None\<rparr>)"
    using C5_guarded_start_is_noop[OF e2] g2 by blast
  have e3: "exec E0 P1 [Click, TimerFire, Click] (AIWorker P1) = Some (s\<lparr>timer := None\<rparr>)"
    using exec_append[of E0 P1 "[Click, TimerFire]" "[Click]" "AIWorker P1"] e2 c by (simp del: step.simps)
  show ?thesis using e2 e3 g(4) by simp
qed

text \<open>
  \<^bold>\<open>C6.\<close> For every panel whose props carry a saved result or a non-empty saved log,
  whatever \<open>autoStart\<close> says: no timer is scheduled, and as long as the user does not
  click, nothing is called (neither the service nor a callback), and the logs and the
  result stay the saved ones.
\<close>

theorem C6_saved_session_no_call:
  assumes "hasExistingAnalysis P" and "Click \<notin> set evs" and "exec E P evs (AIWorker P) = Some s"
  shows "outs s = [] \<and> calls s = [] \<and> timer s = None \<and>
         logs s = (case savedLogs_prop P of None \<Rightarrow> [] | Some l \<Rightarrow> l) \<and>
         result s = savedResult_prop P"
  using noclick_idle_exec[OF init_saved(1)[OF assms(1)] init_fields(4) assms(2,3)]
    init_saved(2,3)[OF assms(1)] init_fields(6)[of P]
  by simp

text \<open>
  A panel with \<open>autoStart\<close> and a saved result.
\<close>

theorem C6_saved_session_no_call_witness:
  "hasExistingAnalysis P2 \<and> autoStart P2 \<and>
   map_option outs (exec E0 P2 [Unmount] (AIWorker P2)) = Some [] \<and>
   map_option result (exec E0 P2 [Unmount] (AIWorker P2)) = Some (Some r0)"
proof -
  have h: "hasExistingAnalysis P2" "autoStart P2" "savedResult_prop P2 = Some r0"
    by (simp_all add: hasExistingAnalysis_def P2_def)
  obtain s where s: "exec E0 P2 [Unmount] (AIWorker P2) = Some s" by (simp add: init_P2)
  have "Click \<notin> set [Unmount]" by simp
  from C6_saved_session_no_call[OF h(1) this s] show ?thesis using h s by simp
qed

text \<open>
  \<^bold>\<open>C7.\<close> For every panel with \<open>autoStart\<close> and no saved session: mounting schedules
  the run 500 ms later; and in every sequence of events without a click, the service
  has been called once if the timer has fired and not at all if it has not, in which
  case the timer is still pending and its firing calls the service, as run 0.
\<close>

theorem C7_auto_start_once:
  assumes "autoStart P" and "\<not> hasExistingAnalysis P"
  shows "timer (AIWorker P) = Some 500 \<and>
     (\<forall>evs s. Click \<notin> set evs \<longrightarrow> exec E P evs (AIWorker P) = Some s \<longrightarrow>
        length (filter is_Analyze (outs s)) = (if TimerFire \<in> set evs then 1 else 0) \<and>
        (TimerFire \<notin> set evs \<longrightarrow>
           (\<exists>s'. step E P TimerFire s = Some s' \<and>
                 filter is_Analyze (outs s') = [Analyze 0 (stock_prop P)])))"
proof (intro conjI allI impI)
  show t: "timer (AIWorker P) = Some 500" using assms by (rule init_auto)
  fix evs s
  assume h: "Click \<notin> set evs" "exec E P evs (AIWorker P) = Some s"
  note pe = pending_exec[OF t init_fields(3) init_fields(4) init_fields(6) h]
  from pe show "length (filter is_Analyze (outs s)) = (if TimerFire \<in> set evs then 1 else 0)"
    by simp
  assume "TimerFire \<notin> set evs"
  with pe have a: "timer s = Some 500" "\<not> analysisInProgress s" "outs s = []" "next_call s = 0"
    by (simp_all add: init_fields)
  from pending_fire[OF a(1,2,3), of E P] a(4)
  show "\<exists>s'. step E P TimerFire s = Some s' \<and> filter is_Analyze (outs s') = [Analyze 0 (stock_prop P)]"
    by auto
qed

text \<open>
  The timer fires, the service reports progress and resolves: one call.
\<close>

theorem C7_auto_start_once_witness:
  "autoStart P1 \<and> \<not> hasExistingAnalysis P1 \<and> timer (AIWorker P1) = Some 500 \<and>
   map_option (filter is_Analyze) (map_option outs
      (exec E0 P1 [TimerFire, Progress 0 ''reading the news'', Resolve 0 r0] (AIWorker P1)))
    = Some [Analyze 0 (stock_prop P1)]"
proof -
  have h: "autoStart P1" "\<not> hasExistingAnalysis P1"
    by (simp_all add: P1_def P0_def hasExistingAnalysis_def)
  let ?evs = "[TimerFire, Progress 0 ''reading the news'', Resolve 0 r0]"
  obtain s where s: "exec E0 P1 ?evs (AIWorker P1) = Some s"
    by (simp add: init_P1 start_case progress_case settle_resolve_case del: step.simps(3))
  have nc: "Click \<notin> set ?evs" by simp
  note c7 = C7_auto_start_once[OF h, of E0]
  have t: "timer (AIWorker P1) = Some 500" using c7 by (rule conjunct1)
  have "length (filter is_Analyze (outs s)) = (if TimerFire \<in> set ?evs then 1 else 0)"
    using c7[THEN conjunct2, rule_format, OF nc s] by (rule conjunct1)
  then have l: "length (filter is_Analyze (outs s)) = 1" by simp
  have m: "Analyze 0 (stock_prop P1) \<in> set (outs s)" using s
    by (auto simp: init_P1 start_case progress_case settle_resolve_case simp del: step.simps(3))
  have "filter is_Analyze (outs s) = [Analyze 0 (stock_prop P1)]"
  proof -
    from m have "Analyze 0 (stock_prop P1) \<in> set (filter is_Analyze (outs s))" by simp
    moreover from l obtain x where "filter is_Analyze (outs s) = [x]"
      by (cases "filter is_Analyze (outs s)") auto
    ultimately show ?thesis by simp
  qed
  then show ?thesis using h t s by simp
qed

text \<open>
  \<^bold>\<open>C8.\<close> For every panel that was given both callbacks, in every state it can
  reach: the numbers of \<open>onAnalysisStart\<close> calls and of service calls are the number of
  runs started; the number of \<open>onAnalysisComplete\<close> calls is the number of runs whose
  call has settled; no exception has left \<open>performRealAIAnalysis\<close>; a step that starts
  a run calls \<open>onAnalysisStart\<close> with the ticker and then the service, and nothing else;
  and however a pending call settles (\<open>Inr\<close> a value, \<open>Inl\<close> an error), the step is
  defined and calls \<open>onAnalysisComplete\<close> once, with the ticker and the new \<open>result\<close>,
  which carries the logs.
\<close>

theorem C8_callbacks_once_per_run:
  assumes "exec E P evs (AIWorker P) = Some s"
    and "onAnalysisStart P" and "onAnalysisComplete P"
  shows "length (filter is_Analyze (outs s)) = next_call s \<and>
     length (filter is_OnStart (outs s)) = next_call s \<and>
     length (filter is_OnComplete (outs s)) + length (calls s) = next_call s \<and>
     filter is_Unhandled (outs s) = [] \<and>
     (\<forall>ev s'. step E P ev s = Some s' \<longrightarrow> next_call s' \<noteq> next_call s \<longrightarrow>
        next_call s' = Suc (next_call s) \<and>
        outs s' = outs s @ [OnStart (ticker (stock_prop P)), Analyze (next_call s) (stock_prop P)]) \<and>
     (\<forall>k allLogs settled. map_of (calls s) k = Some allLogs \<longrightarrow>
        (\<exists>s' fr. settle E P k settled s = Some s' \<and> result s' = Some fr \<and>
           savedLogs fr \<noteq> None \<and>
           outs s' = outs s @ [OnComplete (ticker (stock_prop P)) fr]))"
proof -
  have t: "trace_inv P s" using trace_exec[OF trace_init inv_init assms(1)] .
  have 1: "length (filter is_Analyze (outs s)) = next_call s"
    using t by (simp add: trace_inv_def)
  have 2: "length (filter is_OnStart (outs s)) = next_call s"
    using t assms(2) by (simp add: trace_inv_def)
  have 3: "length (filter is_OnComplete (outs s)) + length (calls s) = next_call s"
    using t assms(3) by (simp add: trace_inv_def)
  have 4: "filter is_Unhandled (outs s) = []"
    using t by (simp add: trace_inv_def)
  have 5: "\<forall>ev s'. step E P ev s = Some s' \<longrightarrow> next_call s' \<noteq> next_call s \<longrightarrow>
        next_call s' = Suc (next_call s) \<and>
        outs s' = outs s @ [OnStart (ticker (stock_prop P)), Analyze (next_call s) (stock_prop P)]"
    using step_starts(4,5)[of E P _ s] assms(2) by simp
  have "\<exists>s' fr. settle E P k settled s = Some s' \<and> result s' = Some fr \<and>
           savedLogs fr \<noteq> None \<and>
           outs s' = outs s @ [OnComplete (ticker (stock_prop P)) fr]"
    if "map_of (calls s) k = Some allLogs" for k allLogs settled
    using that assms(3)
    by (cases settled) (simp_all add: settle_resolve_case settle_reject_case complete_out_def fallbackResult_def)
  then have 6: "\<forall>k allLogs settled. map_of (calls s) k = Some allLogs \<longrightarrow>
        (\<exists>s' fr. settle E P k settled s = Some s' \<and> result s' = Some fr \<and>
           savedLogs fr \<noteq> None \<and>
           outs s' = outs s @ [OnComplete (ticker (stock_prop P)) fr])" by blast
  show ?thesis using 1 2 3 4 5 6 by (intro conjI)
qed

text \<open>
  A run that fails and a second run that is still in progress: two starts, one completion.
\<close>

theorem C8_callbacks_once_per_run_witness:
  "onAnalysisStart P0 \<and> onAnalysisComplete P0 \<and>
   map_option (\<lambda>s. length (filter is_OnStart (outs s)))
     (exec E0 P0 [Click, Reject 0 (Error ''timeout''), Click] (AIWorker P0)) = Some 2 \<and>
   map_option (\<lambda>s. length (filter is_OnComplete (outs s)))
     (exec E0 P0 [Click, Reject 0 (Error ''timeout''), Click] (AIWorker P0)) = Some 1 \<and>
   map_option (\<lambda>s. filter is_Unhandled (outs s))
     (exec E0 P0 [Click, Reject 0 (Error ''timeout''), Click] (AIWorker P0)) = Some []"
proof -
  let ?evs = "[Click, Reject 0 (Error ''timeout''), Click]"
  obtain s where s: "exec E0 P0 ?evs (AIWorker P0) = Some s"
    by (simp add: init_P0 start_case settle_reject_case)
  have n: "next_call s = 2" "length (calls s) = 1" using s
    by (auto simp: init_P0 start_case settle_reject_case)
  from C8_callbacks_once_per_run[OF s P0_fields(1,2)] n
  have "length (filter is_OnStart (outs s)) = 2" "length (filter is_OnComplete (outs s)) = 1"
    "filter is_Unhandled (outs s) = []" by simp_all
  then show ?thesis using s P0_fields(1,2) by simp
qed

text \<open>
  \<^bold>\<open>C9.\<close> Whenever a run starts (a click on a mounted panel that is not analyzing,
  or the timer, with the ref clear), the logs after the step are exactly the four
  entries of the new run, built at the four clock readings of this step, and they are
  the \<open>allLogs\<close> the new call is pending with; and nothing that follows depends on the
  logs that were there before: replacing them by any \<open>prior\<close> sequence gives the same
  states, so the same logs and the same \<open>savedLogs\<close>, after any further events.
\<close>

theorem C9_logs_reset_on_start:
  assumes "\<not> analysisInProgress s"
    and "ev = Click \<and> mounted s \<and> \<not> analyzing s \<or> ev = TimerFire \<and> timer s \<noteq> None"
  shows "\<exists>s1. step E P ev s = Some s1 \<and>
           length (logs s1) = 4 \<and>
           map log_type (logs s1) = [''system'', ''info'', ''info'', ''system''] \<and>
           map log_id (logs s1) = map (date_now_random E) [ticks s ..< ticks s + 4] \<and>
           calls s1 = calls s @ [(next_call s, logs s1)] \<and>
           (\<forall>prior evs. exec E P (ev # evs) (s\<lparr>logs := prior\<rparr>) = exec E P (ev # evs) s)"
proof -
  let ?L = "startup_logs E P (ticks s)"
  have ids: "map log_id ?L = map (date_now_random E) [ticks s ..< ticks s + 4]"
  proof -
    have "[ticks s ..< ticks s + 4] = [ticks s, ticks s + 1, ticks s + 2, ticks s + 3]"
      by (simp add: upt_rec)
    then show ?thesis by (simp add: startup_logs_def mk_log_def)
  qed
  have len: "length ?L = 4" by (simp add: startup_logs_def)
  from assms(2) show ?thesis
  proof
    assume a: "ev = Click \<and> mounted s \<and> \<not> analyzing s"
    have st: "step E P ev (s\<lparr>logs := prior\<rparr>) = step E P ev s" for prior
      using a assms(1) by (simp add: start_case)
    have "exec E P (ev # evs) (s\<lparr>logs := prior\<rparr>) = exec E P (ev # evs) s" for prior evs
      using st[of prior] by (simp del: step.simps)
    then show ?thesis using a assms(1) len ids startup_types[of E P "ticks s"]
      by (simp add: start_case del: exec.simps)
  next
    assume a: "ev = TimerFire \<and> timer s \<noteq> None"
    then obtain d where d: "timer s = Some d" by auto
    have st: "step E P ev (s\<lparr>logs := prior\<rparr>) = step E P ev s" for prior
      using a d assms(1) by (simp add: start_case)
    have "exec E P (ev # evs) (s\<lparr>logs := prior\<rparr>) = exec E P (ev # evs) s" for prior evs
      using st[of prior] by (simp del: step.simps)
    then show ?thesis using a d assms(1) len ids startup_types[of E P "ticks s"]
      by (simp add: start_case del: exec.simps)
  qed
qed

text \<open>
  Re-analyze after a completed run: the six entries of the first run are gone.
\<close>

theorem C9_logs_reset_on_start_witness:
  "map_option (\<lambda>s. map log_type (logs s))
     (exec E0 P0 [Click, Progress 0 ''reading the news'', Resolve 0 r0, Click] (AIWorker P0))
   = Some [''system'', ''info'', ''info'', ''system'']"
proof -
  obtain s where s: "exec E0 P0 [Click, Progress 0 ''reading the news'', Resolve 0 r0] (AIWorker P0) = Some s"
    by (simp add: init_P0 start_case progress_case settle_resolve_case del: step.simps(3))
  have g: "\<not> analysisInProgress s" "mounted s" "\<not> analyzing s" using s
    by (auto simp: init_P0 start_case progress_case settle_resolve_case simp del: step.simps(3))
  then have h: "Click = Click \<and> mounted s \<and> \<not> analyzing s \<or> Click = TimerFire \<and> timer s \<noteq> None"
    by simp
  from C9_logs_reset_on_start[OF g(1) h, of E0 P0] obtain s1 where
    s1: "step E0 P0 Click s = Some s1" "map log_type (logs s1) = [''system'', ''info'', ''info'', ''system'']"
    by (elim exE conjE) (rule that; assumption)
  have "exec E0 P0 ([Click, Progress 0 ''reading the news'', Resolve 0 r0] @ [Click]) (AIWorker P0) = Some s1"
    using s s1(1) by (rule exec_snoc)
  then show ?thesis using s1(2) by simp
qed

text \<open>
  \<^bold>\<open>C10.\<close> When a pending call rejects, the result given to \<open>onAnalysisComplete\<close>
  has \<open>signal\<close>, \<open>buyPercentage\<close>, \<open>reasoning\<close>, \<open>eodMovement\<close>, \<open>confidence\<close> and
  \<open>savedLogs\<close>, and has no \<open>analysisTimestamp\<close>, \<open>hasTechnicalData\<close>, \<open>technicalBars\<close> or
  \<open>hasFullArticle\<close>.
\<close>

theorem C10_fallback_fields:
  assumes "map_of (calls s) k = Some allLogs" and "onAnalysisComplete P"
  shows "\<exists>s' fr. step E P (Reject k err) s = Some s' \<and>
           result s' = Some fr \<and>
           outs s' = outs s @ [OnComplete (ticker (stock_prop P)) fr] \<and>
           analysisTimestamp fr = None \<and> hasTechnicalData fr = None \<and>
           technicalBars fr = None \<and> hasFullArticle fr = None \<and>
           signal fr = ''hold'' \<and> buyPercentage fr = 30 \<and>
           reasoning fr = ''AI service unavailable'' \<and> eodMovement fr = Some 0 \<and>
           confidence fr = 2 / 10 \<and>
           (\<exists>errorLog. savedLogs fr = Some (allLogs @ [errorLog]))"
  using assms
  by (simp add: settle_reject_case complete_out_def fallbackResult_def)

text \<open>
  The call of a clicked panel rejects with \<open>timeout\<close>.
\<close>

theorem C10_fallback_fields_witness:
  "map_option (\<lambda>fr. (analysisTimestamp fr, hasTechnicalData fr, technicalBars fr, hasFullArticle fr))
     (Option.bind (exec E0 P0 [Click, Reject 0 (Error ''timeout'')] (AIWorker P0)) result)
   = Some (None, None, None, None)"
proof -
  let ?s1 = "performRealAIAnalysis E0 P0 False (AIWorker P0)"
  have m: "map_of (calls ?s1) 0 = Some (startup_logs E0 P0 0)"
    by (simp add: init_fields start_eq)
  from C10_fallback_fields[OF m P0_fields(2), of E0 "Error ''timeout''"] obtain s' fr where
    c: "step E0 P0 (Reject 0 (Error ''timeout'')) ?s1 = Some s'" "result s' = Some fr"
       "analysisTimestamp fr = None" "hasTechnicalData fr = None"
       "technicalBars fr = None" "hasFullArticle fr = None"
    by (elim exE conjE) (rule that; assumption)
  have "exec E0 P0 [Click, Reject 0 (Error ''timeout'')] (AIWorker P0) = Some s'"
    using sample_run(1) c(1) by (simp del: step.simps)
  then show ?thesis using c(2-) by simp
qed

end
